theory Spec2Isabelle
  imports Main "HOL-Library.AList"
begin

section \<open>The contact book of task.py\<close>

text \<open>
  A shallow embedding of the data model of \<^verbatim>\<open>task.py\<close> (the classes \<^verbatim>\<open>Field\<close>,
  \<^verbatim>\<open>Name\<close>, \<^verbatim>\<open>Phone\<close>, \<^verbatim>\<open>Birthday\<close>, \<^verbatim>\<open>Record\<close>, \<^verbatim>\<open>AddressBook\<close>) and of the
  parts of Python's \<^verbatim>\<open>datetime\<close> and \<^verbatim>\<open>_strptime\<close> modules that the classes call.

  Conventions.
  \<^item> A Python \<^verbatim>\<open>str\<close> is a \<open>string\<close>; the character \<open>c\<close> stands for the code point
    \<open>of_char c\<close>, so the model covers the strings over the code points 0..255.
  \<^item> A raised exception is the left summand of a sum; \<open>ValueError\<close> is the error the
    specification calls InvalidFormat.
  \<^item> A method that mutates its object takes the object and returns the outcome
    together with the object afterwards.
  \<^item> Python's \<^verbatim>\<open>//\<close> and \<^verbatim>\<open>%\<close> on integers round towards minus infinity, as \<open>div\<close> and
    \<open>mod\<close> on \<open>int\<close> do.
\<close>

datatype error = ValueError | OverflowError

subsection \<open>Fields\<close>

record Field =
  "value" :: string

type_synonym Name = Field
type_synonym Phone = Field
type_synonym Birthday = Field

text \<open>\<^verbatim>\<open>Field.__init__\<close> stores the value and cannot fail.\<close>

definition Field_init :: "string \<Rightarrow> error + Field" where
  "Field_init v = Inr \<lparr>value = v\<rparr>"

text \<open>\<^verbatim>\<open>class Name(Field): pass\<close> inherits the constructor unchanged.\<close>

definition Name_init :: "string \<Rightarrow> error + Name" where
  "Name_init v = Field_init v"

text \<open>
  \<^verbatim>\<open>str.isdigit\<close> on one character: true for the characters whose Unicode property
  Numeric_Type is Decimal or Digit. Among the code points 0..255 these are the ten
  ASCII digits and the superscripts two, three and one (0xB2, 0xB3, 0xB9).
\<close>

definition isdigit_char :: "char \<Rightarrow> bool" where
  "isdigit_char c = (c \<in> set ''0123456789'' \<or> c \<in> set [CHR 0xB2, CHR 0xB3, CHR 0xB9])"

text \<open>\<^verbatim>\<open>str.isdigit\<close>: all characters are digits and there is at least one character.\<close>

definition isdigit :: "string \<Rightarrow> bool" where
  "isdigit s = (s \<noteq> [] \<and> list_all isdigit_char s)"

text \<open>
  \<^verbatim>\<open>Phone.__init__\<close>. The argument is a \<open>string\<close>, so \<^verbatim>\<open>isinstance(value, str)\<close> holds.
\<close>

definition Phone_init :: "string \<Rightarrow> error + Phone" where
  "Phone_init v =
     (if \<not> (True \<and> isdigit v \<and> length v = 10) then Inl ValueError
      else Field_init v)"

subsection \<open>Calendar arithmetic of the datetime module\<close>

definition MINYEAR :: int where "MINYEAR = 1"
definition MAXYEAR :: int where "MAXYEAR = 9999"
definition MAXORDINAL :: int where "MAXORDINAL = 3652059"

definition DAYS_IN_MONTH :: "int list" where
  "DAYS_IN_MONTH = [-1, 31, 28, 31, 30, 31, 30, 31, 31, 30, 31, 30, 31]"

text \<open>The table of days before each month is filled by a loop over \<open>DAYS_IN_MONTH[1:]\<close>.\<close>

definition DAYS_BEFORE_MONTH :: "int list" where
  "DAYS_BEFORE_MONTH =
     fst (foldl (\<lambda>(tbl, dbm) dim. (tbl @ [dbm], dbm + dim)) ([-1], 0) (tl DAYS_IN_MONTH))"

definition is_leap :: "int \<Rightarrow> bool" where
  "is_leap year = (year mod 4 = 0 \<and> (year mod 100 \<noteq> 0 \<or> year mod 400 = 0))"

definition days_before_year :: "int \<Rightarrow> int" where
  "days_before_year year = (let y = year - 1 in y * 365 + y div 4 - y div 100 + y div 400)"

definition days_in_month :: "int \<Rightarrow> int \<Rightarrow> int" where
  "days_in_month year month =
     (if month = 2 \<and> is_leap year then 29 else DAYS_IN_MONTH ! nat month)"

definition days_before_month :: "int \<Rightarrow> int \<Rightarrow> int" where
  "days_before_month year month =
     DAYS_BEFORE_MONTH ! nat month + (if month > 2 \<and> is_leap year then 1 else 0)"

definition ymd2ord :: "int \<Rightarrow> int \<Rightarrow> int \<Rightarrow> int" where
  "ymd2ord year month day =
     days_before_year year + days_before_month year month + day"

definition DI400Y :: int where "DI400Y = days_before_year 401"
definition DI100Y :: int where "DI100Y = days_before_year 101"
definition DI4Y :: int where "DI4Y = days_before_year 5"

text \<open>
  \<^verbatim>\<open>_ord2ymd\<close>. Each \<^verbatim>\<open>divmod\<close> is a \<open>div\<close> and a \<open>mod\<close>; \<^verbatim>\<open>(n + 50) >> 5\<close> is a division by
  32 of a non-negative number.
\<close>

definition ord2ymd :: "int \<Rightarrow> int \<times> int \<times> int" where
  "ord2ymd n0 =
     (let n = n0 - 1;
          n400 = n div DI400Y; n = n mod DI400Y;
          year = n400 * 400 + 1;
          n100 = n div DI100Y; n = n mod DI100Y;
          n4 = n div DI4Y; n = n mod DI4Y;
          n1 = n div 365; n = n mod 365;
          year = year + (n100 * 100 + n4 * 4 + n1)
      in if n1 = 4 \<or> n100 = 4 then (year - 1, 12, 31)
         else
           let leapyear = (n1 = 3 \<and> (n4 \<noteq> 24 \<or> n100 = 3));
               month = (n + 50) div 32;
               preceding = DAYS_BEFORE_MONTH ! nat month
                           + (if month > 2 \<and> leapyear then 1 else 0);
               (month, preceding) =
                 (if preceding > n
                  then (month - 1,
                        preceding - (DAYS_IN_MONTH ! nat (month - 1)
                                     + (if month - 1 = 2 \<and> leapyear then 1 else 0)))
                  else (month, preceding));
               n = n - preceding
           in (year, month, n + 1))"

subsection \<open>The date class\<close>

record date =
  year :: int
  month :: int
  day :: int

text \<open>\<^verbatim>\<open>_check_date_fields\<close>, run by the constructor.\<close>

definition check_date_fields :: "int \<Rightarrow> int \<Rightarrow> int \<Rightarrow> error + int \<times> int \<times> int" where
  "check_date_fields y m d =
     (if \<not> (MINYEAR \<le> y \<and> y \<le> MAXYEAR) then Inl ValueError
      else if \<not> (1 \<le> m \<and> m \<le> 12) then Inl ValueError
      else if \<not> (1 \<le> d \<and> d \<le> days_in_month y m) then Inl ValueError
      else Inr (y, m, d))"

definition date_new :: "int \<Rightarrow> int \<Rightarrow> int \<Rightarrow> error + date" where
  "date_new y m d =
     (case check_date_fields y m d of
        Inl e \<Rightarrow> Inl e
      | Inr (y, m, d) \<Rightarrow> Inr \<lparr>year = y, month = m, day = d\<rparr>)"

text \<open>\<^verbatim>\<open>date.replace\<close>: an argument that is \<^verbatim>\<open>None\<close> keeps the field; the constructor runs again.\<close>

definition date_replace :: "date \<Rightarrow> int option \<Rightarrow> int option \<Rightarrow> int option \<Rightarrow> error + date" where
  "date_replace self y m d =
     date_new (case y of None \<Rightarrow> year self | Some y \<Rightarrow> y)
              (case m of None \<Rightarrow> month self | Some m \<Rightarrow> m)
              (case d of None \<Rightarrow> day self | Some d \<Rightarrow> d)"

definition toordinal :: "date \<Rightarrow> int" where
  "toordinal self = ymd2ord (year self) (month self) (day self)"

definition fromordinal :: "int \<Rightarrow> error + date" where
  "fromordinal n = (case ord2ymd n of (y, m, d) \<Rightarrow> date_new y m d)"

text \<open>\<^verbatim>\<open>date.__lt__\<close> compares the tuples (year, month, day).\<close>

definition date_lt :: "date \<Rightarrow> date \<Rightarrow> bool" where
  "date_lt self other =
     (year self < year other \<or>
      (year self = year other \<and>
        (month self < month other \<or> (month self = month other \<and> day self < day other))))"

text \<open>A \<^verbatim>\<open>timedelta\<close> is used through its \<^verbatim>\<open>days\<close> only and is modelled by that number.\<close>

definition date_sub :: "date \<Rightarrow> date \<Rightarrow> int" where
  "date_sub self other = toordinal self - toordinal other"

definition date_add :: "date \<Rightarrow> int \<Rightarrow> error + date" where
  "date_add self days =
     (let o' = toordinal self + days
      in if 0 < o' \<and> o' \<le> MAXORDINAL then fromordinal o' else Inl OverflowError)"

definition weekday :: "date \<Rightarrow> int" where
  "weekday self = (toordinal self + 6) mod 7"

subsection \<open>Regular expressions with backtracking\<close>

text \<open>
  \<^verbatim>\<open>_strptime\<close> turns the format into a regular expression and matches it with
  \<^verbatim>\<open>re.match\<close>. The expressions of the directives used here have no repetition, so the
  backtracking matcher is a structural recursion: \<open>rmatch r s g\<close> lists, in the order
  in which backtracking tries them, the ways \<open>r\<close> matches a prefix of \<open>s\<close>, each as
  the unread rest of \<open>s\<close> and the groups captured so far.
\<close>

datatype rx = Lit char | Cls "char set" | Cat rx rx | Alt rx rx | Grp string rx

type_synonym groups = "(string \<times> string) list"

fun rmatch :: "rx \<Rightarrow> string \<Rightarrow> groups \<Rightarrow> (string \<times> groups) list" where
  "rmatch (Lit x) s g = (case s of [] \<Rightarrow> [] | c # r \<Rightarrow> if c = x then [(r, g)] else [])"
| "rmatch (Cls X) s g = (case s of [] \<Rightarrow> [] | c # r \<Rightarrow> if c \<in> X then [(r, g)] else [])"
| "rmatch (Cat a b) s g = concat (map (\<lambda>(r, g'). rmatch b r g') (rmatch a s g))"
| "rmatch (Alt a b) s g = rmatch a s g @ rmatch b s g"
| "rmatch (Grp n a) s g =
     map (\<lambda>(r, g'). (r, (n, take (length s - length r) s) # g')) (rmatch a s g)"

text \<open>\<^verbatim>\<open>re.match\<close>: the first match, as its end position and its group dictionary.\<close>

definition re_match :: "rx \<Rightarrow> string \<Rightarrow> (nat \<times> groups) option" where
  "re_match r s =
     (case rmatch r s [] of [] \<Rightarrow> None | (rest, g) # _ \<Rightarrow> Some (length s - length rest, g))"

text \<open>
  \<^verbatim>\<open>\d\<close> matches the characters of category Nd; among the code points 0..255 these
  are the ASCII digits. The flag IGNORECASE changes nothing, no letter occurs.
\<close>

definition re_digit :: rx where
  "re_digit = Cls (set ''0123456789'')"

text \<open>\<^verbatim>\<open>(?P<d>3[0-1]|[1-2]\d|0[1-9]|[1-9]| [1-9])\<close>\<close>

definition re_d :: rx where
  "re_d = Grp ''d''
     (Alt (Cat (Lit CHR ''3'') (Cls (set ''01'')))
     (Alt (Cat (Cls (set ''12'')) re_digit)
     (Alt (Cat (Lit CHR ''0'') (Cls (set ''123456789'')))
     (Alt (Cls (set ''123456789''))
          (Cat (Lit CHR '' '') (Cls (set ''123456789'')))))))"

text \<open>\<^verbatim>\<open>(?P<m>1[0-2]|0[1-9]|[1-9])\<close>\<close>

definition re_m :: rx where
  "re_m = Grp ''m''
     (Alt (Cat (Lit CHR ''1'') (Cls (set ''012'')))
     (Alt (Cat (Lit CHR ''0'') (Cls (set ''123456789'')))
          (Cls (set ''123456789''))))"

text \<open>\<^verbatim>\<open>(?P<Y>\d\d\d\d)\<close>\<close>

definition re_Y :: rx where
  "re_Y = Grp ''Y'' (Cat re_digit (Cat re_digit (Cat re_digit re_digit)))"

text \<open>The pattern of the format \<^verbatim>\<open>'%d.%m.%Y'\<close>; the dots are escaped, hence literal.\<close>

definition format_regex :: rx where
  "format_regex = Cat re_d (Cat (Lit CHR ''.'') (Cat re_m (Cat (Lit CHR ''.'') re_Y)))"

subsection \<open>Reading and writing numbers\<close>

text \<open>
  \<^verbatim>\<open>str.isspace\<close> on one character, for the code points 0..255.
\<close>

definition isspace_char :: "char \<Rightarrow> bool" where
  "isspace_char c =
     (c \<in> set [CHR 0x09, CHR 0x0A, CHR 0x0B, CHR 0x0C, CHR 0x0D, CHR 0x1C, CHR 0x1D,
                CHR 0x1E, CHR 0x1F, CHR 0x20, CHR 0x85, CHR 0xA0])"

definition strip :: "string \<Rightarrow> string" where
  "strip s = rev (dropWhile isspace_char (rev (dropWhile isspace_char s)))"

definition digit_value :: "char \<Rightarrow> int" where
  "digit_value c = int (of_char c) - 48"

text \<open>
  \<^verbatim>\<open>int(text)\<close> for the texts a group of the pattern can hold: white space around the
  number is dropped, what remains must be a non-empty run of ASCII digits. Signs and
  underscores, which \<^verbatim>\<open>int\<close> also reads, cannot occur in a group and are not modelled.
\<close>

definition py_int :: "string \<Rightarrow> error + int" where
  "py_int s =
     (let t = strip s
      in if t \<noteq> [] \<and> list_all (\<lambda>c. c \<in> set ''0123456789'') t
         then Inr (foldl (\<lambda>a c. 10 * a + digit_value c) 0 t)
         else Inl ValueError)"

definition digit_char :: "nat \<Rightarrow> char" where
  "digit_char k = char_of (48 + k)"

text \<open>The decimal numeral of a natural number, as \<^verbatim>\<open>%d\<close> prints it.\<close>

function decimal :: "nat \<Rightarrow> string" where
  "decimal n = (if n < 10 then [digit_char n] else decimal (n div 10) @ [digit_char (n mod 10)])"
  by pat_completeness auto
termination
  by (relation "measure id") auto

declare decimal.simps [simp del]

text \<open>Padding with zeros on the left, as \<^verbatim>\<open>%02d\<close> and \<^verbatim>\<open>%04d\<close> do for a number that is not negative.\<close>

definition zero_pad :: "nat \<Rightarrow> int \<Rightarrow> string" where
  "zero_pad w k = (let t = decimal (nat k) in replicate (w - length t) CHR ''0'' @ t)"

subsection \<open>Parsing and formatting dates\<close>

text \<open>
  \<^verbatim>\<open>datetime.strptime(data_string, '%d.%m.%Y').date()\<close>. The pattern must match and
  leave nothing unread. A field without group keeps its default (year 1900, month
  1, day 1). The date constructor then checks the three numbers.
\<close>

definition strptime :: "string \<Rightarrow> error + date" where
  "strptime data_string =
     (case re_match format_regex data_string of
        None \<Rightarrow> Inl ValueError
      | Some (end', found_dict) \<Rightarrow>
          if length data_string \<noteq> end' then Inl ValueError
          else
            (case (case map_of found_dict ''Y'' of None \<Rightarrow> Inr 1900 | Some t \<Rightarrow> py_int t) of
               Inl e \<Rightarrow> Inl e
             | Inr y \<Rightarrow>
            (case (case map_of found_dict ''m'' of None \<Rightarrow> Inr 1 | Some t \<Rightarrow> py_int t) of
               Inl e \<Rightarrow> Inl e
             | Inr m \<Rightarrow>
            (case (case map_of found_dict ''d'' of None \<Rightarrow> Inr 1 | Some t \<Rightarrow> py_int t) of
               Inl e \<Rightarrow> Inl e
             | Inr d \<Rightarrow> date_new y m d))))"

text \<open>
  \<^verbatim>\<open>date.strftime('%d.%m.%Y')\<close>. The C library does the printing: day and month with
  two digits, the year as the library prints it. The GNU library prints the year
  as a plain number, so a year below 1000 comes out with fewer than four digits
  (\<^verbatim>\<open>01.01.999\<close>); other libraries pad it with zeros. From the year 1000 on they agree.
\<close>

definition strftime :: "date \<Rightarrow> string" where
  "strftime self =
     zero_pad 2 (day self) @ ''.'' @ zero_pad 2 (month self) @ ''.'' @ decimal (nat (year self))"

text \<open>\<^verbatim>\<open>Birthday.__init__\<close>: the text is parsed, the parsed date dropped, the text stored.\<close>

definition Birthday_init :: "string \<Rightarrow> error + Birthday" where
  "Birthday_init v =
     (case strptime v of Inl e \<Rightarrow> Inl ValueError | Inr _ \<Rightarrow> Field_init v)"

subsection \<open>Records\<close>

record Record =
  name :: Name
  phones :: "Phone list"
  birthday :: "Birthday option"

definition Record_init :: "string \<Rightarrow> error + Record" where
  "Record_init n =
     (case Name_init n of
        Inl e \<Rightarrow> Inl e
      | Inr nm \<Rightarrow> Inr \<lparr>name = nm, phones = [], birthday = None\<rparr>)"

text \<open>
  \<^verbatim>\<open>Record.add_phone\<close>: the argument \<^verbatim>\<open>Phone(phone_number)\<close> is evaluated before
  \<^verbatim>\<open>append\<close> is called.
\<close>

definition add_phone :: "string \<Rightarrow> Record \<Rightarrow> (error + unit) \<times> Record" where
  "add_phone phone_number self =
     (case Phone_init phone_number of
        Inl e \<Rightarrow> (Inl e, self)
      | Inr p \<Rightarrow> (Inr (), self\<lparr>phones := phones self @ [p]\<rparr>))"

definition add_birthday :: "string \<Rightarrow> Record \<Rightarrow> (error + unit) \<times> Record" where
  "add_birthday birthday_str self =
     (case Birthday_init birthday_str of
        Inl e \<Rightarrow> (Inl e, self)
      | Inr b \<Rightarrow> (Inr (), self\<lparr>birthday := Some b\<rparr>))"

subsection \<open>The address book\<close>

text \<open>
  \<^verbatim>\<open>AddressBook.data\<close> is a dict from names to records. A dict keeps its keys in the
  order of their first insertion, and assigning to a present key keeps its place:
  an association list with \<open>AList.update\<close>.
\<close>

type_synonym AddressBook = "(string \<times> Record) list"

definition add_record :: "Record \<Rightarrow> AddressBook \<Rightarrow> AddressBook" where
  "add_record record data = AList.update (value (name record)) record data"

definition find :: "string \<Rightarrow> AddressBook \<Rightarrow> Record option" where
  "find n data = map_of data n"

text \<open>
  The loop of \<^verbatim>\<open>get_upcoming_birthdays\<close> over \<^verbatim>\<open>self.data.values()\<close>, with the list
  \<^verbatim>\<open>upcoming\<close> as accumulator. An entry is the dict with the keys \<^verbatim>\<open>name\<close> and
  \<^verbatim>\<open>congratulation_date\<close>. An exception ends the loop.
\<close>

type_synonym entry = "(string \<times> string) list"

fun upcoming_loop :: "date \<Rightarrow> Record list \<Rightarrow> entry list \<Rightarrow> error + entry list" where
  "upcoming_loop today [] upcoming = Inr upcoming"
| "upcoming_loop today (record # records) upcoming =
     (case birthday record of
        None \<Rightarrow> upcoming_loop today records upcoming
      | Some b \<Rightarrow>
          (case strptime (value b) of
             Inl e \<Rightarrow> Inl e
           | Inr b_date \<Rightarrow>
          (case date_replace b_date (Some (year today)) None None of
             Inl e \<Rightarrow> Inl e
           | Inr b_this_year \<Rightarrow>
          (case (if date_lt b_this_year today
                 then date_replace b_this_year (Some (year today + 1)) None None
                 else Inr b_this_year) of
             Inl e \<Rightarrow> Inl e
           | Inr b_this_year \<Rightarrow>
               if 0 \<le> date_sub b_this_year today \<and> date_sub b_this_year today < 7
               then
                 (case (if weekday b_this_year \<ge> 5
                        then date_add b_this_year (7 - weekday b_this_year)
                        else Inr b_this_year) of
                    Inl e \<Rightarrow> Inl e
                  | Inr b_this_year \<Rightarrow>
                      upcoming_loop today records
                        (upcoming @ [[(''name'', value (name record)),
                                      (''congratulation_date'', strftime b_this_year)]]))
               else upcoming_loop today records upcoming))))"

text \<open>
  \<^verbatim>\<open>AddressBook.get_upcoming_birthdays\<close>. The date \<^verbatim>\<open>date.today()\<close> is read from the
  clock and is a parameter here. The method returns its outcome and the book as it
  is afterwards.
\<close>

definition get_upcoming_birthdays ::
  "date \<Rightarrow> AddressBook \<Rightarrow> (error + entry list) \<times> AddressBook" where
  "get_upcoming_birthdays today data = (upcoming_loop today (map snd data) [], data)"

subsection \<open>Auxiliary notions for the proofs\<close>

text \<open>The invariant of the class \<^verbatim>\<open>date\<close>: what its constructor checks.\<close>

definition valid_date :: "date \<Rightarrow> bool" where
  "valid_date self =
     (MINYEAR \<le> year self \<and> year self \<le> MAXYEAR \<and> 1 \<le> month self \<and> month self \<le> 12
      \<and> 1 \<le> day self \<and> day self \<le> days_in_month (year self) (month self))"

text \<open>The last steps of \<open>ord2ymd\<close>, from the day of the year to month and day.\<close>

definition month_day :: "int \<Rightarrow> int \<Rightarrow> bool \<Rightarrow> int \<times> int \<times> int" where
  "month_day y n leapyear =
     (let month = (n + 50) div 32;
          preceding = DAYS_BEFORE_MONTH ! nat month
                      + (if month > 2 \<and> leapyear then 1 else 0);
          (month, preceding) =
            (if preceding > n
             then (month - 1,
                   preceding - (DAYS_IN_MONTH ! nat (month - 1)
                                + (if month - 1 = 2 \<and> leapyear then 1 else 0)))
             else (month, preceding));
          n = n - preceding
      in (y, month, n + 1))"

text \<open>
  The texts that the three groups of the pattern match: a day 01 to 31, or 1 to 9
  alone or after a blank; a month 01 to 12, or 1 to 9 alone; a year of four digits.
\<close>

fun d_text :: "string \<Rightarrow> bool" where
  "d_text [q] = (q \<in> set ''123456789'')"
| "d_text [p, q] =
     ((p = CHR ''3'' \<and> q \<in> set ''01'') \<or> (p \<in> set ''12'' \<and> q \<in> set ''0123456789'')
      \<or> (p \<in> set ''0 '' \<and> q \<in> set ''123456789''))"
| "d_text _ = False"

fun m_text :: "string \<Rightarrow> bool" where
  "m_text [q] = (q \<in> set ''123456789'')"
| "m_text [p, q] =
     ((p = CHR ''1'' \<and> q \<in> set ''012'') \<or> (p = CHR ''0'' \<and> q \<in> set ''123456789''))"
| "m_text _ = False"

fun Y_text :: "string \<Rightarrow> bool" where
  "Y_text [a, b, c, d] =
     (a \<in> set ''0123456789'' \<and> b \<in> set ''0123456789''
      \<and> c \<in> set ''0123456789'' \<and> d \<in> set ''0123456789'')"
| "Y_text _ = False"

text \<open>The number that such a text denotes; a blank counts for nothing.\<close>

definition text_value :: "string \<Rightarrow> int" where
  "text_value t = foldl (\<lambda>a c. 10 * a + digit_value c) 0 (filter (\<lambda>c. c \<noteq> CHR '' '') t)"

subsection \<open>The scheduler in the words of the specification\<close>

text \<open>
  Steps 1 and 2: this year's occurrence of a birthday takes the year of \<open>today\<close> and
  keeps month and day; an occurrence strictly before \<open>today\<close> is replaced by next
  year's. Either date may fail to exist.
\<close>

definition occurrence :: "date \<Rightarrow> date \<Rightarrow> error + date" where
  "occurrence today b =
     (case date_new (year today) (month b) (day b) of
        Inl e \<Rightarrow> Inl e
      | Inr this_year \<Rightarrow>
          if date_lt this_year today then date_new (year today + 1) (month b) (day b)
          else Inr this_year)"

text \<open>Step 3: the difference in whole days.\<close>

definition day_delta :: "date \<Rightarrow> date \<Rightarrow> int" where
  "day_delta today occ = toordinal occ - toordinal today"

text \<open>Step 4: a record is in the window when it has a birthday whose occurrence is 0 to 6 days ahead.\<close>

definition in_window :: "date \<Rightarrow> Record \<Rightarrow> bool" where
  "in_window today r =
     (case birthday r of
        None \<Rightarrow> False
      | Some b \<Rightarrow>
          (case strptime (value b) of
             Inl e \<Rightarrow> False
           | Inr bd \<Rightarrow>
               (case occurrence today bd of
                  Inl e \<Rightarrow> False
                | Inr occ \<Rightarrow> 0 \<le> day_delta today occ \<and> day_delta today occ < 7)))"

text \<open>
  The form DD.MM.YYYY of a date: ten characters, two digits, a dot, two digits, a
  dot, four digits, which read as day, month and year.
\<close>

definition is_DDMMYYYY :: "string \<Rightarrow> date \<Rightarrow> bool" where
  "is_DDMMYYYY s d =
     (length s = 10 \<and> s ! 2 = CHR ''.'' \<and> s ! 5 = CHR ''.''
      \<and> list_all (\<lambda>c. c \<in> set ''0123456789'') (take 2 s @ take 2 (drop 3 s) @ drop 6 s)
      \<and> text_value (take 2 s) = day d \<and> text_value (take 2 (drop 3 s)) = month d
      \<and> text_value (drop 6 s) = year d)"

text \<open>
  One pass of the loop of \<open>upcoming_loop\<close>: the exception raised, or nothing, or the
  entry appended.
\<close>

definition loop_body :: "date \<Rightarrow> Record \<Rightarrow> error + entry option" where
  "loop_body today record =
     (case birthday record of
        None \<Rightarrow> Inr None
      | Some b \<Rightarrow>
          (case strptime (value b) of
             Inl e \<Rightarrow> Inl e
           | Inr b_date \<Rightarrow>
          (case date_replace b_date (Some (year today)) None None of
             Inl e \<Rightarrow> Inl e
           | Inr b_this_year \<Rightarrow>
          (case (if date_lt b_this_year today
                 then date_replace b_this_year (Some (year today + 1)) None None
                 else Inr b_this_year) of
             Inl e \<Rightarrow> Inl e
           | Inr b_this_year \<Rightarrow>
               if 0 \<le> date_sub b_this_year today \<and> date_sub b_this_year today < 7
               then
                 (case (if weekday b_this_year \<ge> 5
                        then date_add b_this_year (7 - weekday b_this_year)
                        else Inr b_this_year) of
                    Inl e \<Rightarrow> Inl e
                  | Inr b_this_year \<Rightarrow>
                      Inr (Some [(''name'', value (name record)),
                                 (''congratulation_date'', strftime b_this_year)]))
               else Inr None))))"

subsection \<open>A scenario\<close>

text \<open>
  The scenario of the specification: on Monday 10.06.2024 a book holds Alice, born on
  10 June, Bob, born on 15 June (a Saturday in 2024), Carol, born on 9 June, and Dan,
  who has no birthday. The query returns Alice on the day itself and Bob on the
  Monday after.
\<close>

definition example_today :: date where
  "example_today = \<lparr>year = 2024, month = 6, day = 10\<rparr>"

definition example_book :: AddressBook where
  "example_book =
     [(''Alice'', \<lparr>name = \<lparr>value = ''Alice''\<rparr>, phones = [],
                   birthday = Some \<lparr>value = ''10.06.1990''\<rparr>\<rparr>),
      (''Bob'', \<lparr>name = \<lparr>value = ''Bob''\<rparr>, phones = [\<lparr>value = ''0501234567''\<rparr>],
                 birthday = Some \<lparr>value = ''15.06.1985''\<rparr>\<rparr>),
      (''Carol'', \<lparr>name = \<lparr>value = ''Carol''\<rparr>, phones = [],
                   birthday = Some \<lparr>value = ''09.06.1999''\<rparr>\<rparr>),
      (''Dan'', \<lparr>name = \<lparr>value = ''Dan''\<rparr>, phones = [], birthday = None\<rparr>)]"

definition example_upcoming :: "entry list" where
  "example_upcoming =
     [[(''name'', ''Alice''), (''congratulation_date'', ''10.06.2024'')],
      [(''name'', ''Bob''), (''congratulation_date'', ''17.06.2024'')]]"

section \<open>Calendar arithmetic\<close>

lemma DAYS_BEFORE_MONTH_eq:
  "DAYS_BEFORE_MONTH = [-1, 0, 31, 59, 90, 120, 151, 181, 212, 243, 273, 304, 334]"
  by (simp add: DAYS_BEFORE_MONTH_def DAYS_IN_MONTH_def)

lemma DI_values: "DI400Y = 146097" "DI100Y = 36524" "DI4Y = 1461"
  by (simp_all add: DI400Y_def DI100Y_def DI4Y_def days_before_year_def)

lemma ord2ymd_unfold:
  "ord2ymd n0 =
     (let n = n0 - 1;
          n400 = n div 146097; n = n mod 146097;
          n100 = n div 36524; n = n mod 36524;
          n4 = n div 1461; n = n mod 1461;
          n1 = n div 365; n = n mod 365;
          y = n400 * 400 + 1 + (n100 * 100 + n4 * 4 + n1)
      in if n1 = 4 \<or> n100 = 4 then (y - 1, 12, 31)
         else month_day y n (n1 = 3 \<and> (n4 \<noteq> 24 \<or> n100 = 3)))"
  unfolding ord2ymd_def month_day_def Let_def DI_values by (rule refl)


lemma month_day_k:
  assumes k: "k = 1 \<or> k = 2 \<or> k = 3 \<or> k = 4 \<or> k = 5 \<or> k = 6 \<or> k = 7 \<or> k = 8 \<or> k = 9
              \<or> k = 10 \<or> k = 11 \<or> k = (12::int)"
    and lo: "32 * k \<le> n + 50" and hi: "n + 50 < 32 * k + 32"
    and n: "0 \<le> n" "n < (if leap then 366 else 365)"
    and kd: "(n + 50) div 32 = k"
    and md: "month_day y n leap = (y', m, d)"
  shows "y' = y \<and> 1 \<le> m \<and> m \<le> 12 \<and> 1 \<le> d
         \<and> d \<le> (if m = 2 \<and> leap then 29 else DAYS_IN_MONTH ! nat m)
         \<and> DAYS_BEFORE_MONTH ! nat m + (if m > 2 \<and> leap then 1 else 0) + d = n + 1"
  using k
proof (elim disjE)
  assume "k = 1" with lo hi n kd md show ?thesis
    by (simp add: month_day_def DAYS_BEFORE_MONTH_eq DAYS_IN_MONTH_def split: if_splits)
next
  assume "k = 2" with lo hi n kd md show ?thesis
    by (simp add: month_day_def DAYS_BEFORE_MONTH_eq DAYS_IN_MONTH_def split: if_splits)
next
  assume "k = 3" with lo hi n kd md show ?thesis
    by (simp add: month_day_def DAYS_BEFORE_MONTH_eq DAYS_IN_MONTH_def split: if_splits)
next
  assume "k = 4" with lo hi n kd md show ?thesis
    by (simp add: month_day_def DAYS_BEFORE_MONTH_eq DAYS_IN_MONTH_def split: if_splits)
next
  assume "k = 5" with lo hi n kd md show ?thesis
    by (simp add: month_day_def DAYS_BEFORE_MONTH_eq DAYS_IN_MONTH_def split: if_splits)
next
  assume "k = 6" with lo hi n kd md show ?thesis
    by (simp add: month_day_def DAYS_BEFORE_MONTH_eq DAYS_IN_MONTH_def split: if_splits)
next
  assume "k = 7" with lo hi n kd md show ?thesis
    by (simp add: month_day_def DAYS_BEFORE_MONTH_eq DAYS_IN_MONTH_def split: if_splits)
next
  assume "k = 8" with lo hi n kd md show ?thesis
    by (simp add: month_day_def DAYS_BEFORE_MONTH_eq DAYS_IN_MONTH_def split: if_splits)
next
  assume "k = 9" with lo hi n kd md show ?thesis
    by (simp add: month_day_def DAYS_BEFORE_MONTH_eq DAYS_IN_MONTH_def split: if_splits)
next
  assume "k = 10" with lo hi n kd md show ?thesis
    by (simp add: month_day_def DAYS_BEFORE_MONTH_eq DAYS_IN_MONTH_def split: if_splits)
next
  assume "k = 11" with lo hi n kd md show ?thesis
    by (simp add: month_day_def DAYS_BEFORE_MONTH_eq DAYS_IN_MONTH_def split: if_splits)
next
  assume "k = 12" with lo hi n kd md show ?thesis
    by (simp add: month_day_def DAYS_BEFORE_MONTH_eq DAYS_IN_MONTH_def split: if_splits)
qed

lemma month_day_ok:
  assumes n: "0 \<le> n" "n < (if leap then 366 else 365)"
    and md: "month_day y n leap = (y', m, d)"
  shows "y' = y \<and> 1 \<le> m \<and> m \<le> 12 \<and> 1 \<le> d
         \<and> d \<le> (if m = 2 \<and> leap then 29 else DAYS_IN_MONTH ! nat m)
         \<and> DAYS_BEFORE_MONTH ! nat m + (if m > 2 \<and> leap then 1 else 0) + d = n + 1"
proof -
  define k where "k = (n + 50) div 32"
  have lo: "32 * k \<le> n + 50" and hi: "n + 50 < 32 * k + 32"
    unfolding k_def by presburger+
  have "1 \<le> k \<and> k \<le> 12" using n lo hi by (auto split: if_splits)
  then have "k = 1 \<or> k = 2 \<or> k = 3 \<or> k = 4 \<or> k = 5 \<or> k = 6 \<or> k = 7 \<or> k = 8 \<or> k = 9
              \<or> k = 10 \<or> k = 11 \<or> k = 12" by presburger
  from month_day_k [OF this lo hi n _ md] show ?thesis by (simp add: k_def)
qed

lemma year_div:
  fixes a b c e :: int
  assumes "0 \<le> b" "b \<le> 3" "0 \<le> c" "c \<le> 24" "0 \<le> e" "e \<le> 3"
  shows "(a * 400 + (b * 100 + c * 4 + e)) div 4 = a * 100 + b * 25 + c"
    and "(a * 400 + (b * 100 + c * 4 + e)) div 100 = a * 4 + b"
    and "(a * 400 + (b * 100 + c * 4 + e)) div 400 = a"
proof -
  show "(a * 400 + (b * 100 + c * 4 + e)) div 4 = a * 100 + b * 25 + c"
    by (rule int_div_pos_eq [where r = e]) (use assms in auto)
  show "(a * 400 + (b * 100 + c * 4 + e)) div 100 = a * 4 + b"
    by (rule int_div_pos_eq [where r = "c * 4 + e"]) (use assms in auto)
  show "(a * 400 + (b * 100 + c * 4 + e)) div 400 = a"
    by (rule int_div_pos_eq [where r = "b * 100 + c * 4 + e"]) (use assms in auto)
qed

lemma days_before_year_parts:
  fixes a b c e :: int
  assumes "0 \<le> b" "b \<le> 3" "0 \<le> c" "c \<le> 24" "0 \<le> e" "e \<le> 3"
  shows "days_before_year (a * 400 + 1 + (b * 100 + c * 4 + e))
         = 146097 * a + 36524 * b + 1461 * c + 365 * e"
proof -
  have eq: "a * 400 + 1 + (b * 100 + c * 4 + e) - 1 = a * 400 + (b * 100 + c * 4 + e)"
    by simp
  show ?thesis
    unfolding days_before_year_def Let_def eq year_div [OF assms] by simp
qed

lemma is_leap_parts:
  fixes a b c e :: int
  assumes "0 \<le> b" "b \<le> 3" "0 \<le> c" "c \<le> 24" "0 \<le> e" "e \<le> 3"
  shows "is_leap (a * 400 + 1 + (b * 100 + c * 4 + e)) \<longleftrightarrow> (e = 3 \<and> (c \<noteq> 24 \<or> b = 3))"
proof -
  define x where "x = a * 400 + 1 + (b * 100 + c * 4 + e)"
  have m4: "x mod 4 = (if e = 3 then 0 else e + 1)"
    by (rule int_mod_pos_eq
          [where q = "if e = 3 then a * 100 + b * 25 + c + 1 else a * 100 + b * 25 + c"])
       (use assms in \<open>auto simp: x_def\<close>)
  have m100: "x mod 100 = (if c = 24 then 0 else 4 * (c + 1))" if "e = 3"
    by (rule int_mod_pos_eq [where q = "if c = 24 then a * 4 + b + 1 else a * 4 + b"])
       (use assms that in \<open>auto simp: x_def\<close>)
  have m400: "x mod 400 = (if b = 3 then 0 else 100 * (b + 1))" if "e = 3" "c = 24"
    by (rule int_mod_pos_eq [where q = "if b = 3 then a + 1 else a"])
       (use assms that in \<open>auto simp: x_def\<close>)
  show ?thesis
    unfolding is_leap_def x_def [symmetric]
    using m4 m100 m400 assms by (cases "e = 3"; cases "c = 24"; cases "b = 3") auto
qed

lemma ord2ymd_correct:
  assumes n1: "1 \<le> n" and res: "ord2ymd n = (y, m, d)"
  shows "1 \<le> y \<and> 1 \<le> m \<and> m \<le> 12 \<and> 1 \<le> d \<and> d \<le> days_in_month y m
         \<and> ymd2ord y m d = n \<and> (n \<le> 3652059 \<longrightarrow> y \<le> 9999)"
proof -
  define n0 where "n0 = n - 1"
  define a where "a = n0 div 146097"
  define r1 where "r1 = n0 mod 146097"
  define b where "b = r1 div 36524"
  define r2 where "r2 = r1 mod 36524"
  define c where "c = r2 div 1461"
  define r3 where "r3 = r2 mod 1461"
  define e where "e = r3 div 365"
  define r where "r = r3 mod 365"
  define Y where "Y = a * 400 + 1 + (b * 100 + c * 4 + e)"
  have d1: "n0 = 146097 * a + r1" "0 \<le> r1" "r1 < 146097"
    by (simp_all add: a_def r1_def)
  have d2: "r1 = 36524 * b + r2" "0 \<le> r2" "r2 < 36524"
    by (simp_all add: b_def r2_def)
  have d3: "r2 = 1461 * c + r3" "0 \<le> r3" "r3 < 1461"
    by (simp_all add: c_def r3_def)
  have d4: "r3 = 365 * e + r" "0 \<le> r" "r < 365"
    by (simp_all add: e_def r_def)
  have a0: "0 \<le> a" using n1 by (simp add: a_def n0_def pos_imp_zdiv_nonneg_iff)
  have b0: "0 \<le> b" using d1 by (simp add: b_def pos_imp_zdiv_nonneg_iff)
  have c0: "0 \<le> c" using d2 by (simp add: c_def pos_imp_zdiv_nonneg_iff)
  have e0: "0 \<le> e" using d3 by (simp add: e_def pos_imp_zdiv_nonneg_iff)
  have b4: "b \<le> 4" using d1 d2 by linarith
  have c24: "c \<le> 24" using d2 d3 by linarith
  have e4: "e \<le> 4" using d3 d4 by linarith
  have unf: "ord2ymd n = (if e = 4 \<or> b = 4 then (Y - 1, 12, 31)
               else month_day Y r (e = 3 \<and> (c \<noteq> 24 \<or> b = 3)))"
    unfolding ord2ymd_unfold Let_def
    by (simp only: n0_def [symmetric] a_def [symmetric] r1_def [symmetric] b_def [symmetric]
          r2_def [symmetric] c_def [symmetric] r3_def [symmetric] e_def [symmetric]
          r_def [symmetric] Y_def [symmetric])
  have nn: "n = n0 + 1" by (simp add: n0_def)
  consider (century) "b = 4" | (leapend) "b \<le> 3" "e = 4" | (general) "b \<le> 3" "e \<le> 3"
    using b4 e4 by linarith
  then show ?thesis
  proof cases
    case century
    have vals: "r2 = 0" "r3 = 0" "c = 0" "e = 0" "r = 0"
      using century d1 d2 d3 d4 c0 e0 by simp_all
    have ymd: "y = a * 400 + 1 + (3 * 100 + 24 * 4 + 3)" "m = 12" "d = 31"
      using res unf century vals by (simp_all add: Y_def)
    have dby: "days_before_year y = 146097 * a + 36524 * 3 + 1461 * 24 + 365 * 3"
      unfolding ymd by (rule days_before_year_parts) simp_all
    have leap: "is_leap y"
      unfolding ymd by (subst is_leap_parts) simp_all
    have bound: "n \<le> 3652059 \<Longrightarrow> y \<le> 9999"
      using nn d1 d2 century vals a0 ymd by simp
    show ?thesis
      using dby leap nn d1 d2 century vals a0 bound
      by (simp add: ymd ymd2ord_def days_in_month_def days_before_month_def
            DAYS_BEFORE_MONTH_eq DAYS_IN_MONTH_def)
  next
    case leapend
    have vals: "r = 0" using leapend d3 d4 by simp
    have c23: "c \<le> 23" using leapend d2 d3 d4 by linarith
    have ymd: "y = a * 400 + 1 + (b * 100 + c * 4 + 3)" "m = 12" "d = 31"
      using res unf leapend by (simp_all add: Y_def)
    have dby: "days_before_year y = 146097 * a + 36524 * b + 1461 * c + 365 * 3"
      unfolding ymd by (rule days_before_year_parts) (use b0 leapend c0 c23 in simp_all)
    have leap: "is_leap y"
      unfolding ymd by (subst is_leap_parts) (use b0 leapend c0 c23 in simp_all)
    have bound: "n \<le> 3652059 \<Longrightarrow> y \<le> 9999"
      using nn d1 d2 d3 d4 leapend vals a0 b0 c0 c23 ymd by simp
    show ?thesis
      using dby leap nn d1 d2 d3 d4 leapend vals a0 b0 c0 bound
      by (simp add: ymd ymd2ord_def days_in_month_def days_before_month_def
            DAYS_BEFORE_MONTH_eq DAYS_IN_MONTH_def)
  next
    case general
    have md: "month_day Y r (e = 3 \<and> (c \<noteq> 24 \<or> b = 3)) = (y, m, d)"
      using res unf general by simp
    have dby: "days_before_year Y = 146097 * a + 36524 * b + 1461 * c + 365 * e"
      unfolding Y_def by (rule days_before_year_parts) (use b0 general c0 c24 e0 in simp_all)
    have leap: "is_leap Y \<longleftrightarrow> (e = 3 \<and> (c \<noteq> 24 \<or> b = 3))"
      unfolding Y_def by (rule is_leap_parts) (use b0 general c0 c24 e0 in simp_all)
    have rr: "r < (if e = 3 \<and> (c \<noteq> 24 \<or> b = 3) then 366 else 365)"
      using d4 by simp
    from month_day_ok [OF d4(2) rr md]
    have ok: "y = Y" "1 \<le> m" "m \<le> 12" "1 \<le> d"
      "d \<le> (if m = 2 \<and> is_leap Y then 29 else DAYS_IN_MONTH ! nat m)"
      "DAYS_BEFORE_MONTH ! nat m + (if m > 2 \<and> is_leap Y then 1 else 0) + d = r + 1"
      unfolding leap by simp_all
    have ord: "ymd2ord y m d = n"
      using ok(6) dby nn d1 d2 d3 d4 unfolding ymd2ord_def days_before_month_def ok(1)
      by linarith
    have y1: "1 \<le> y" using a0 b0 c0 e0 unfolding ok(1) Y_def by simp
    have bound: "y \<le> 9999" if "n \<le> 3652059"
    proof -
      have "a \<le> 24" using that nn d1 by linarith
      moreover have "\<not> (a = 24 \<and> b = 3 \<and> c = 24 \<and> e = 3)"
        using that nn d1 d2 d3 d4 by linarith
      ultimately show ?thesis
        using general c24 unfolding ok(1) Y_def by linarith
    qed
    show ?thesis
      using ok(2-5) ord y1 bound unfolding days_in_month_def ok(1) by simp
  qed
qed

lemma date_new_Inr_iff:
  "date_new y m d = Inr dt \<longleftrightarrow> dt = \<lparr>year = y, month = m, day = d\<rparr> \<and> valid_date dt"
  by (auto simp: date_new_def check_date_fields_def valid_date_def)


lemma date_new_valid:
  "valid_date dt \<Longrightarrow> date_new (year dt) (month dt) (day dt) = Inr dt"
  by (simp add: date_new_Inr_iff)

lemma fromordinal_ok:
  assumes "1 \<le> n" "n \<le> MAXORDINAL"
  shows "\<exists>dt. fromordinal n = Inr dt \<and> valid_date dt \<and> toordinal dt = n"
proof -
  obtain y m d where res: "ord2ymd n = (y, m, d)"
    by (cases "ord2ymd n") auto
  from ord2ymd_correct [OF assms(1) res] assms(2)
  have "1 \<le> y" "y \<le> 9999" "1 \<le> m" "m \<le> 12" "1 \<le> d" "d \<le> days_in_month y m"
    "ymd2ord y m d = n"
    by (simp_all add: MAXORDINAL_def)
  then show ?thesis
    by (simp add: fromordinal_def res date_new_Inr_iff valid_date_def toordinal_def
          MINYEAR_def MAXYEAR_def)
qed

lemma date_add_Inr:
  assumes "date_add dt k = Inr dt'"
  shows "valid_date dt' \<and> toordinal dt' = toordinal dt + k"
proof -
  from assms have rng: "1 \<le> toordinal dt + k" "toordinal dt + k \<le> MAXORDINAL"
    and fo: "fromordinal (toordinal dt + k) = Inr dt'"
    by (auto simp: date_add_def Let_def split: if_splits)
  from fromordinal_ok [OF rng] fo show ?thesis by auto
qed

lemma div_step:
  fixes y k :: int
  assumes "0 < k"
  shows "y div k = (y - 1) div k + (if y mod k = 0 then 1 else 0)"
proof -
  define q where "q = (y - 1) div k"
  define r where "r = (y - 1) mod k"
  have dec: "y = k * q + (r + 1)" and r: "0 \<le> r" "r < k"
    using assms by (simp_all add: q_def r_def)
  show ?thesis
  proof (cases "r + 1 = k")
    case True
    then have "y = k * (q + 1) + 0" using dec by (simp add: algebra_simps)
    then have "y div k = q + 1" "y mod k = 0"
      using assms by (simp_all only: int_div_pos_eq int_mod_pos_eq le_refl)
    then show ?thesis by (simp add: q_def)
  next
    case False
    then have lt: "r + 1 < k" using r by simp
    have "y div k = q" by (rule int_div_pos_eq [OF dec]) (use r lt in simp_all)
    moreover have "y mod k = r + 1" by (rule int_mod_pos_eq [OF dec]) (use r lt in simp_all)
    ultimately show ?thesis using r by (simp add: q_def)
  qed
qed

lemma mod_chain:
  fixes y :: int
  shows "y mod 100 = 0 \<Longrightarrow> y mod 4 = 0" and "y mod 400 = 0 \<Longrightarrow> y mod 100 = 0"
proof -
  have "(4::int) dvd 100" "(100::int) dvd 400" by simp_all
  then show "y mod 100 = 0 \<Longrightarrow> y mod 4 = 0" and "y mod 400 = 0 \<Longrightarrow> y mod 100 = 0"
    by (meson dvd_trans mod_0_imp_dvd dvd_imp_mod_0)+
qed

lemma days_before_year_Suc:
  "days_before_year (y + 1) = days_before_year y + (if is_leap y then 366 else 365)"
proof -
  have e: "y div 4 = (y - 1) div 4 + (if y mod 4 = 0 then 1 else 0)"
    "y div 100 = (y - 1) div 100 + (if y mod 100 = 0 then 1 else 0)"
    "y div 400 = (y - 1) div 400 + (if y mod 400 = 0 then 1 else 0)"
    by (rule div_step, simp)+
  have eq: "y + 1 - 1 = y" by simp
  show ?thesis
    unfolding days_before_year_def is_leap_def Let_def eq e
    using mod_chain [of y]
    by (cases "y mod 4 = 0"; cases "y mod 100 = 0"; cases "y mod 400 = 0")
       (simp_all add: algebra_simps)
qed

lemma days_before_year_mono_nat:
  "days_before_year y \<le> days_before_year (y + int k)"
proof (induction k)
  case 0
  show ?case by simp
next
  case (Suc k)
  have "days_before_year (y + int k) \<le> days_before_year (y + int k + 1)"
    unfolding days_before_year_Suc by simp
  moreover have "y + int (Suc k) = y + int k + 1" by simp
  ultimately show ?case using Suc by (simp only: order_trans)
qed

lemma days_before_year_mono:
  assumes "y \<le> z" shows "days_before_year y \<le> days_before_year z"
  using days_before_year_mono_nat [of y "nat (z - y)"] assms by simp

lemma day_of_year_bounds:
  assumes "1 \<le> m" "m \<le> 12" "1 \<le> d" "d \<le> days_in_month y m"
  shows "1 \<le> days_before_month y m + d"
    and "days_before_month y m + d \<le> (if is_leap y then 366 else 365)"
proof -
  from assms(1,2) have "m = 1 \<or> m = 2 \<or> m = 3 \<or> m = 4 \<or> m = 5 \<or> m = 6 \<or> m = 7 \<or> m = 8
    \<or> m = 9 \<or> m = 10 \<or> m = 11 \<or> m = 12" by presburger
  then have "1 \<le> days_before_month y m + d
      \<and> days_before_month y m + d \<le> (if is_leap y then 366 else 365)"
    using assms(3,4)
    by (elim disjE)
       (simp_all add: days_before_month_def days_in_month_def DAYS_BEFORE_MONTH_eq
          DAYS_IN_MONTH_def split: if_splits)
  then show "1 \<le> days_before_month y m + d"
    and "days_before_month y m + d \<le> (if is_leap y then 366 else 365)" by simp_all
qed



section \<open>The pattern of the date format\<close>

lemma in_rmatch_Lit:
  "(r, g') \<in> set (rmatch (Lit x) s g) \<longleftrightarrow> s = x # r \<and> g' = g"
  by (cases s) auto

lemma in_rmatch_Cls:
  "(r, g') \<in> set (rmatch (Cls X) s g) \<longleftrightarrow> (\<exists>c. s = c # r \<and> c \<in> X \<and> g' = g)"
  by (cases s) auto

lemma in_rmatch_Cat:
  "(r, g') \<in> set (rmatch (Cat a b) s g)
   \<longleftrightarrow> (\<exists>r1 g1. (r1, g1) \<in> set (rmatch a s g) \<and> (r, g') \<in> set (rmatch b r1 g1))"
  by auto

lemma in_rmatch_Alt:
  "(r, g') \<in> set (rmatch (Alt a b) s g)
   \<longleftrightarrow> (r, g') \<in> set (rmatch a s g) \<or> (r, g') \<in> set (rmatch b s g)"
  by auto

lemma in_rmatch_Grp:
  "(r, g') \<in> set (rmatch (Grp n a) s g)
   \<longleftrightarrow> (\<exists>g1. (r, g1) \<in> set (rmatch a s g) \<and> g' = (n, take (length s - length r) s) # g1)"
  by auto

lemmas in_rmatch = in_rmatch_Lit in_rmatch_Cls in_rmatch_Cat in_rmatch_Alt in_rmatch_Grp

text \<open>The texts that the groups of the pattern match.\<close>

lemma in_re_digit:
  "(r, g') \<in> set (rmatch re_digit s g) \<longleftrightarrow> (\<exists>c. s = c # r \<and> c \<in> set ''0123456789'' \<and> g' = g)"
  unfolding re_digit_def in_rmatch_Cls ..

lemma in_re_d:
  "(r, g') \<in> set (rmatch re_d s g) \<longleftrightarrow>
     (\<exists>t. s = t @ r \<and> g' = (''d'', t) # g \<and>
        ((\<exists>q. t = [CHR ''3'', q] \<and> q \<in> set ''01'')
         \<or> (\<exists>p q. t = [p, q] \<and> p \<in> set ''12'' \<and> q \<in> set ''0123456789'')
         \<or> (\<exists>q. t = [CHR ''0'', q] \<and> q \<in> set ''123456789'')
         \<or> (\<exists>q. t = [q] \<and> q \<in> set ''123456789'')
         \<or> (\<exists>q. t = [CHR '' '', q] \<and> q \<in> set ''123456789'')))"
  unfolding re_d_def in_rmatch in_re_digit
  by (rule iffI; elim exE conjE disjE; (simp; fail | fastforce))

lemma d_text_iff:
  "d_text t \<longleftrightarrow>
     ((\<exists>q. t = [CHR ''3'', q] \<and> q \<in> set ''01'')
      \<or> (\<exists>p q. t = [p, q] \<and> p \<in> set ''12'' \<and> q \<in> set ''0123456789'')
      \<or> (\<exists>q. t = [CHR ''0'', q] \<and> q \<in> set ''123456789'')
      \<or> (\<exists>q. t = [q] \<and> q \<in> set ''123456789'')
      \<or> (\<exists>q. t = [CHR '' '', q] \<and> q \<in> set ''123456789''))"
  by (cases t rule: d_text.cases) auto

lemma in_re_d_text:
  "(r, g') \<in> set (rmatch re_d s g) \<longleftrightarrow> (\<exists>t. s = t @ r \<and> g' = (''d'', t) # g \<and> d_text t)"
  unfolding in_re_d d_text_iff ..

lemma m_text_iff:
  "m_text t \<longleftrightarrow>
     ((\<exists>q. t = [CHR ''1'', q] \<and> q \<in> set ''012'')
      \<or> (\<exists>q. t = [CHR ''0'', q] \<and> q \<in> set ''123456789'')
      \<or> (\<exists>q. t = [q] \<and> q \<in> set ''123456789''))"
  by (cases t rule: m_text.cases) auto

lemma in_re_m:
  "(r, g') \<in> set (rmatch re_m s g) \<longleftrightarrow>
     (\<exists>t. s = t @ r \<and> g' = (''m'', t) # g \<and>
        ((\<exists>q. t = [CHR ''1'', q] \<and> q \<in> set ''012'')
         \<or> (\<exists>q. t = [CHR ''0'', q] \<and> q \<in> set ''123456789'')
         \<or> (\<exists>q. t = [q] \<and> q \<in> set ''123456789'')))"
  unfolding re_m_def in_rmatch
  by (rule iffI; elim exE conjE disjE; (simp; fail | fastforce))

lemma in_re_m_text:
  "(r, g') \<in> set (rmatch re_m s g) \<longleftrightarrow> (\<exists>t. s = t @ r \<and> g' = (''m'', t) # g \<and> m_text t)"
  unfolding in_re_m m_text_iff ..

lemma Y_text_iff:
  "Y_text t \<longleftrightarrow> (\<exists>a b c d. t = [a, b, c, d] \<and> a \<in> set ''0123456789'' \<and> b \<in> set ''0123456789''
      \<and> c \<in> set ''0123456789'' \<and> d \<in> set ''0123456789'')"
  by (cases t rule: Y_text.cases) (simp_all del: set_simps list.set)

lemma rmatch_Cls_Cat:
  "rmatch (Cat (Cls X) R) s g =
     (case s of [] \<Rightarrow> [] | c # s' \<Rightarrow> if c \<in> X then rmatch R s' g else [])"
  by (cases s) simp_all

lemma in_rmatch_Cls4_Cons:
  "(r, g') \<in> set (rmatch (Grp n (Cat (Cls X) (Cat (Cls X) (Cat (Cls X) (Cls X))))) s g) \<longleftrightarrow>
     (\<exists>a b c d. s = a # b # c # d # r \<and> g' = (n, [a, b, c, d]) # g
        \<and> a \<in> X \<and> b \<in> X \<and> c \<in> X \<and> d \<in> X)"
  by (auto simp: rmatch_Cls_Cat split: list.splits if_splits)

lemma in_rmatch_Cls4:
  "(r, g') \<in> set (rmatch (Grp n (Cat (Cls X) (Cat (Cls X) (Cat (Cls X) (Cls X))))) s g) \<longleftrightarrow>
     (\<exists>t. s = t @ r \<and> g' = (n, t) # g \<and>
        (\<exists>a b c d. t = [a, b, c, d] \<and> a \<in> X \<and> b \<in> X \<and> c \<in> X \<and> d \<in> X))"
  unfolding in_rmatch_Cls4_Cons by (rule iffI; elim exE conjE; simp)

lemma in_re_Y:
  "(r, g') \<in> set (rmatch re_Y s g) \<longleftrightarrow>
     (\<exists>t. s = t @ r \<and> g' = (''Y'', t) # g \<and>
        (\<exists>a b c d. t = [a, b, c, d] \<and> a \<in> set ''0123456789'' \<and> b \<in> set ''0123456789''
      \<and> c \<in> set ''0123456789'' \<and> d \<in> set ''0123456789''))"
  unfolding re_Y_def re_digit_def by (rule in_rmatch_Cls4)

lemma in_re_Y_text:
  "(r, g') \<in> set (rmatch re_Y s g) \<longleftrightarrow> (\<exists>t. s = t @ r \<and> g' = (''Y'', t) # g \<and> Y_text t)"
  unfolding in_re_Y Y_text_iff ..

lemma in_format_regex:
  "(r, g') \<in> set (rmatch format_regex s g) \<longleftrightarrow>
     (\<exists>dt mt yt. s = dt @ ''.'' @ mt @ ''.'' @ yt @ r \<and> d_text dt \<and> m_text mt \<and> Y_text yt
        \<and> g' = (''Y'', yt) # (''m'', mt) # (''d'', dt) # g)"
proof
  assume "(r, g') \<in> set (rmatch format_regex s g)"
  then obtain dt mt yt r1 r2 r3 r4 where
    "s = dt @ r1" "d_text dt" "r1 = CHR ''.'' # r2" "r2 = mt @ r3" "m_text mt"
    "r3 = CHR ''.'' # r4" "r4 = yt @ r" "Y_text yt"
    "g' = (''Y'', yt) # (''m'', mt) # (''d'', dt) # g"
    unfolding format_regex_def in_rmatch_Cat in_rmatch_Lit in_re_d_text in_re_m_text in_re_Y_text
    by blast
  then have "s = dt @ ''.'' @ mt @ ''.'' @ yt @ r \<and> d_text dt \<and> m_text mt \<and> Y_text yt
        \<and> g' = (''Y'', yt) # (''m'', mt) # (''d'', dt) # g"
    by simp
  then show "\<exists>dt mt yt. s = dt @ ''.'' @ mt @ ''.'' @ yt @ r \<and> d_text dt \<and> m_text mt \<and> Y_text yt
        \<and> g' = (''Y'', yt) # (''m'', mt) # (''d'', dt) # g"
    by blast
next
  assume "\<exists>dt mt yt. s = dt @ ''.'' @ mt @ ''.'' @ yt @ r \<and> d_text dt \<and> m_text mt \<and> Y_text yt
        \<and> g' = (''Y'', yt) # (''m'', mt) # (''d'', dt) # g"
  then obtain dt mt yt where s: "s = dt @ ''.'' @ mt @ ''.'' @ yt @ r"
    and t: "d_text dt" "m_text mt" "Y_text yt"
    and g': "g' = (''Y'', yt) # (''m'', mt) # (''d'', dt) # g"
    by blast
  have 1: "(CHR ''.'' # mt @ ''.'' @ yt @ r, (''d'', dt) # g) \<in> set (rmatch re_d s g)"
    unfolding in_re_d_text using t(1) by (simp add: s)
  have 2: "(CHR ''.'' # yt @ r, (''m'', mt) # (''d'', dt) # g)
             \<in> set (rmatch re_m (mt @ ''.'' @ yt @ r) ((''d'', dt) # g))"
    unfolding in_re_m_text using t(2) by simp
  have 3: "(r, g') \<in> set (rmatch re_Y (yt @ r) ((''m'', mt) # (''d'', dt) # g))"
    unfolding in_re_Y_text g' using t(3) by simp
  show "(r, g') \<in> set (rmatch format_regex s g)"
    unfolding format_regex_def in_rmatch_Cat in_rmatch_Lit
    using 1 2 3 by blast
qed

lemma digit_not_dot: "c \<in> set ''0123456789'' \<Longrightarrow> c \<noteq> CHR ''.''"
  by auto

lemma digit_not_space: "c \<in> set ''0123456789'' \<Longrightarrow> \<not> isspace_char c"
  by (auto simp: isspace_char_def)

lemma digit_not_blank: "c \<in> set ''0123456789'' \<Longrightarrow> c \<noteq> CHR '' ''"
  by auto

lemma space_is_space: "isspace_char CHR '' ''"
  by (simp add: isspace_char_def)

lemma sub_digits:
  "c \<in> set ''01'' \<Longrightarrow> c \<in> set ''0123456789''"
  "c \<in> set ''12'' \<Longrightarrow> c \<in> set ''0123456789''"
  "c \<in> set ''012'' \<Longrightarrow> c \<in> set ''0123456789''"
  "c \<in> set ''123456789'' \<Longrightarrow> c \<in> set ''0123456789''"
  "CHR ''0'' \<in> set ''0123456789''" "CHR ''1'' \<in> set ''0123456789''"
  "CHR ''3'' \<in> set ''0123456789''"
  by auto

text \<open>The shapes of the three texts, with every character a digit or the one blank.\<close>

lemma d_text_shape:
  assumes "d_text t"
  shows "(\<exists>q. t = [q] \<and> q \<in> set ''0123456789'')
    \<or> (\<exists>p q. t = [p, q] \<and> p \<in> set ''0123456789'' \<and> q \<in> set ''0123456789'')
    \<or> (\<exists>q. t = [CHR '' '', q] \<and> q \<in> set ''0123456789'')"
  using assms by (cases t rule: d_text.cases) auto

lemma m_text_shape:
  assumes "m_text t"
  shows "(\<exists>q. t = [q] \<and> q \<in> set ''0123456789'')
    \<or> (\<exists>p q. t = [p, q] \<and> p \<in> set ''0123456789'' \<and> q \<in> set ''0123456789'')"
  using assms by (cases t rule: m_text.cases) auto

lemma Y_text_shape:
  assumes "Y_text t"
  shows "\<exists>a b c d. t = [a, b, c, d] \<and> a \<in> set ''0123456789'' \<and> b \<in> set ''0123456789''
    \<and> c \<in> set ''0123456789'' \<and> d \<in> set ''0123456789''"
  using assms by (cases t rule: Y_text.cases) (simp_all del: set_simps list.set)

lemma d_text_no_dot: "d_text t \<Longrightarrow> CHR ''.'' \<notin> set t"
  by (cases t rule: d_text.cases) auto

lemma m_text_no_dot: "m_text t \<Longrightarrow> CHR ''.'' \<notin> set t"
  by (cases t rule: m_text.cases) auto

lemma Y_text_length: "Y_text t \<Longrightarrow> length t = 4"
  by (cases t rule: Y_text.cases) (simp_all del: set_simps list.set)

lemma takeWhile_upto:
  "c \<notin> set a \<Longrightarrow> takeWhile (\<lambda>x. x \<noteq> c) (a @ c # b) = a"
  by (induction a) auto

lemma split_unique:
  assumes "c \<notin> set a" "c \<notin> set a'" "a @ c # b = a' @ c # b'"
  shows "a = a' \<and> b = b'"
proof -
  have "takeWhile (\<lambda>x. x \<noteq> c) (a @ c # b) = a" "takeWhile (\<lambda>x. x \<noteq> c) (a' @ c # b') = a'"
    using assms(1,2) by (simp_all add: takeWhile_upto)
  with assms(3) have "a = a'" by simp
  with assms(3) show ?thesis by simp
qed

lemma format_regex_unique:
  assumes "(r, g') \<in> set (rmatch format_regex s g)" "(r2, g2) \<in> set (rmatch format_regex s g)"
  shows "r2 = r \<and> g2 = g'"
proof -
  from assms(1) obtain dt mt yt where 1: "s = dt @ ''.'' @ mt @ ''.'' @ yt @ r"
    "d_text dt" "m_text mt" "Y_text yt" "g' = (''Y'', yt) # (''m'', mt) # (''d'', dt) # g"
    unfolding in_format_regex by blast
  from assms(2) obtain dt' mt' yt' where 2: "s = dt' @ ''.'' @ mt' @ ''.'' @ yt' @ r2"
    "d_text dt'" "m_text mt'" "Y_text yt'" "g2 = (''Y'', yt') # (''m'', mt') # (''d'', dt') # g"
    unfolding in_format_regex by blast
  have "dt @ CHR ''.'' # (mt @ ''.'' @ yt @ r) = dt' @ CHR ''.'' # (mt' @ ''.'' @ yt' @ r2)"
    using 1(1) 2(1) by simp
  from split_unique [OF d_text_no_dot [OF 1(2)] d_text_no_dot [OF 2(2)] this]
  have a: "dt = dt'" and "mt @ CHR ''.'' # (yt @ r) = mt' @ CHR ''.'' # (yt' @ r2)" by simp_all
  from split_unique [OF m_text_no_dot [OF 1(3)] m_text_no_dot [OF 2(3)] this(2)]
  have b: "mt = mt'" and "yt @ r = yt' @ r2" by simp_all
  with Y_text_length [OF 1(4)] Y_text_length [OF 2(4)] have c: "yt = yt'" "r = r2" by simp_all
  show ?thesis using a b c 1(5) 2(5) by simp
qed


text \<open>What \<open>int\<close> reads from the three texts.\<close>

lemma py_int_digits1:
  assumes "q \<in> set ''0123456789''"
  shows "py_int [q] = Inr (digit_value q)" "text_value [q] = digit_value q"
  using assms digit_not_space [OF assms]
  by (auto simp: py_int_def strip_def text_value_def)

lemma py_int_digits2:
  assumes "p \<in> set ''0123456789''" "q \<in> set ''0123456789''"
  shows "py_int [p, q] = Inr (10 * digit_value p + digit_value q)"
    "text_value [p, q] = 10 * digit_value p + digit_value q"
  using assms digit_not_space [OF assms(1)] digit_not_space [OF assms(2)]
  by (auto simp: py_int_def strip_def text_value_def)

lemma py_int_blank:
  assumes "q \<in> set ''0123456789''"
  shows "py_int [CHR '' '', q] = Inr (digit_value q)" "text_value [CHR '' '', q] = digit_value q"
  using assms digit_not_space [OF assms]
  by (auto simp: py_int_def strip_def text_value_def space_is_space)

lemma py_int_digits4:
  assumes "a \<in> set ''0123456789''" "b \<in> set ''0123456789''" "c \<in> set ''0123456789''"
    "d \<in> set ''0123456789''"
  shows "py_int [a, b, c, d] = Inr (text_value [a, b, c, d])"
  using assms [THEN digit_not_blank] digit_not_space [OF assms(1)] digit_not_space [OF assms(4)]
    assms
  by (simp add: py_int_def strip_def text_value_def del: set_simps list.set)

lemma py_int_d_text: "d_text t \<Longrightarrow> py_int t = Inr (text_value t)"
  using d_text_shape [of t] py_int_digits1 py_int_digits2 py_int_blank by metis

lemma py_int_m_text: "m_text t \<Longrightarrow> py_int t = Inr (text_value t)"
  using m_text_shape [of t] py_int_digits1 py_int_digits2 by metis

lemma py_int_Y_text: "Y_text t \<Longrightarrow> py_int t = Inr (text_value t)"
  using Y_text_shape [of t] py_int_digits4 by metis

lemma re_match_format_Some:
  "re_match format_regex s = Some (e, g) \<longleftrightarrow>
     (\<exists>r. (r, g) \<in> set (rmatch format_regex s []) \<and> e = length s - length r)"
proof
  assume "re_match format_regex s = Some (e, g)"
  then show "\<exists>r. (r, g) \<in> set (rmatch format_regex s []) \<and> e = length s - length r"
    by (auto simp: re_match_def split: list.splits)
next
  assume "\<exists>r. (r, g) \<in> set (rmatch format_regex s []) \<and> e = length s - length r"
  then obtain r where r: "(r, g) \<in> set (rmatch format_regex s [])" "e = length s - length r"
    by blast
  then obtain x L where L: "rmatch format_regex s [] = x # L"
    by (cases "rmatch format_regex s []") auto
  then have "x \<in> set (rmatch format_regex s [])" by simp
  with format_regex_unique [OF r(1), of "fst x" "snd x"] have "x = (r, g)"
    by (cases x) simp
  with L r(2) show "re_match format_regex s = Some (e, g)"
    by (simp add: re_match_def)
qed

lemma re_match_format_None:
  "re_match format_regex s = None \<longleftrightarrow> rmatch format_regex s [] = []"
  by (auto simp: re_match_def split: list.splits)

lemma strptime_Inr_iff:
  "strptime s = Inr d \<longleftrightarrow>
     (\<exists>dt mt yt. s = dt @ ''.'' @ mt @ ''.'' @ yt \<and> d_text dt \<and> m_text mt \<and> Y_text yt
        \<and> d = \<lparr>year = text_value yt, month = text_value mt, day = text_value dt\<rparr>
        \<and> valid_date d)"
proof
  assume ok: "strptime s = Inr d"
  then obtain e g where m: "re_match format_regex s = Some (e, g)"
    by (cases "re_match format_regex s") (auto simp: strptime_def)
  with ok have len: "length s = e"
    by (auto simp: strptime_def split: if_splits)
  from m obtain r where r: "(r, g) \<in> set (rmatch format_regex s [])" "e = length s - length r"
    unfolding re_match_format_Some by blast
  from r(1) obtain dt mt yt where dec: "s = dt @ ''.'' @ mt @ ''.'' @ yt @ r"
    and t: "d_text dt" "m_text mt" "Y_text yt"
    and g: "g = [(''Y'', yt), (''m'', mt), (''d'', dt)]"
    unfolding in_format_regex by blast
  have "r = []" using len r(2) dec by (cases r) auto
  have "date_new (text_value yt) (text_value mt) (text_value dt) = Inr d"
    using ok m len
    by (simp add: strptime_def g py_int_d_text [OF t(1)] py_int_m_text [OF t(2)]
          py_int_Y_text [OF t(3)])
  then have "d = \<lparr>year = text_value yt, month = text_value mt, day = text_value dt\<rparr>
        \<and> valid_date d"
    unfolding date_new_Inr_iff .
  with dec t \<open>r = []\<close>
  show "\<exists>dt mt yt. s = dt @ ''.'' @ mt @ ''.'' @ yt \<and> d_text dt \<and> m_text mt \<and> Y_text yt
        \<and> d = \<lparr>year = text_value yt, month = text_value mt, day = text_value dt\<rparr>
        \<and> valid_date d"
    by auto
next
  assume "\<exists>dt mt yt. s = dt @ ''.'' @ mt @ ''.'' @ yt \<and> d_text dt \<and> m_text mt \<and> Y_text yt
        \<and> d = \<lparr>year = text_value yt, month = text_value mt, day = text_value dt\<rparr>
        \<and> valid_date d"
  then obtain dt mt yt where dec: "s = dt @ ''.'' @ mt @ ''.'' @ yt"
    and t: "d_text dt" "m_text mt" "Y_text yt"
    and d: "d = \<lparr>year = text_value yt, month = text_value mt, day = text_value dt\<rparr>"
      "valid_date d"
    by blast
  define g where "g = [(''Y'', yt), (''m'', mt), (''d'', dt)]"
  have "([], g) \<in> set (rmatch format_regex s [])"
    unfolding in_format_regex g_def using dec t by auto
  then have m: "re_match format_regex s = Some (length s, g)"
    unfolding re_match_format_Some by force
  have "date_new (text_value yt) (text_value mt) (text_value dt) = Inr d"
    unfolding date_new_Inr_iff using d by blast
  then show "strptime s = Inr d"
    by (simp add: strptime_def m g_def py_int_d_text [OF t(1)] py_int_m_text [OF t(2)]
          py_int_Y_text [OF t(3)])
qed


section \<open>Formatted dates\<close>

lemma digit_char_values:
  "digit_char 0 = CHR ''0''" "digit_char 1 = CHR ''1''" "digit_char 2 = CHR ''2''"
  "digit_char 3 = CHR ''3''" "digit_char 4 = CHR ''4''" "digit_char 5 = CHR ''5''"
  "digit_char 6 = CHR ''6''" "digit_char 7 = CHR ''7''" "digit_char 8 = CHR ''8''"
  "digit_char 9 = CHR ''9''"
  by code_simp+

lemma digit_char_Suc0: "digit_char (Suc 0) = CHR ''1''"
  by code_simp

lemma digit_char_digit:
  assumes "k < 10"
  shows "digit_char k \<in> set ''0123456789''" and "digit_value (digit_char k) = int k"
proof -
  from assms have "k = 0 \<or> k = 1 \<or> k = 2 \<or> k = 3 \<or> k = 4 \<or> k = 5 \<or> k = 6 \<or> k = 7 \<or> k = 8
    \<or> k = 9" by arith
  then have "digit_char k \<in> set ''0123456789'' \<and> digit_value (digit_char k) = int k"
    by (elim disjE) (simp_all add: digit_char_values digit_char_Suc0 digit_value_def)
  then show "digit_char k \<in> set ''0123456789''" and "digit_value (digit_char k) = int k"
    by simp_all
qed

lemma decimal_lt10: "n < 10 \<Longrightarrow> decimal n = [digit_char n]"
  by (subst decimal.simps) simp

lemma decimal_ge10: "10 \<le> n \<Longrightarrow> decimal n = decimal (n div 10) @ [digit_char (n mod 10)]"
  by (subst decimal.simps) simp

lemma zero_pad2:
  assumes "0 \<le> k" "k < 100"
  shows "zero_pad 2 k = [digit_char (nat k div 10), digit_char (nat k mod 10)]"
proof (cases "nat k < 10")
  case True
  then show ?thesis
    by (simp add: zero_pad_def decimal_lt10 digit_char_values)
next
  case False
  then have "10 \<le> nat k" "nat k div 10 < 10" using assms by simp_all
  then show ?thesis
    by (simp add: zero_pad_def decimal_ge10 decimal_lt10)
qed

lemma decimal_lt100:
  "n < 100 \<Longrightarrow> 10 \<le> n \<Longrightarrow> decimal n = [digit_char (n div 10), digit_char (n mod 10)]"
  by (simp add: decimal_ge10 decimal_lt10)

lemma div10s:
  fixes n :: nat
  shows "n div 10 div 10 = n div 100" "n div 10 div 100 = n div 1000"
    "n div 10 div 10 div 10 = n div 1000" "n div 100 div 10 = n div 1000"
  by (simp_all add: div_mult2_eq [symmetric])

lemma replicate_small:
  "replicate 3 c = [c, c, c]" "replicate 2 c = [c, c]"
  by (simp_all add: numeral_3_eq_3 numeral_2_eq_2)

lemma decimal_lt1000:
  assumes "n < 1000" "100 \<le> n"
  shows "decimal n = [digit_char (n div 100), digit_char (n div 10 mod 10), digit_char (n mod 10)]"
proof -
  have "n div 10 < 100" "10 \<le> n div 10" using assms by simp_all
  from decimal_lt100 [OF this] show ?thesis
    using assms by (simp add: decimal_ge10 div10s)
qed

lemma decimal_lt10000:
  assumes "n < 10000" "1000 \<le> n"
  shows "decimal n = [digit_char (n div 1000), digit_char (n div 100 mod 10),
           digit_char (n div 10 mod 10), digit_char (n mod 10)]"
proof -
  have "n div 10 < 1000" "100 \<le> n div 10" using assms by simp_all
  from decimal_lt1000 [OF this] show ?thesis
    using assms by (simp add: decimal_ge10 div10s)
qed

lemma zero_pad4:
  assumes "0 \<le> k" "k < 10000"
  shows "zero_pad 4 k = [digit_char (nat k div 1000), digit_char (nat k div 100 mod 10),
           digit_char (nat k div 10 mod 10), digit_char (nat k mod 10)]"
proof -
  define n where "n = nat k"
  have n: "n < 10000" using assms by (simp add: n_def)
  consider "n < 10" | "10 \<le> n" "n < 100" | "100 \<le> n" "n < 1000" | "1000 \<le> n"
    by linarith
  then have "replicate (4 - length (decimal n)) CHR ''0'' @ decimal n
      = [digit_char (n div 1000), digit_char (n div 100 mod 10),
           digit_char (n div 10 mod 10), digit_char (n mod 10)]"
  proof cases
    case 1
    then show ?thesis by (simp add: decimal_lt10 digit_char_values replicate_small)
  next
    case 2
    then show ?thesis by (simp add: decimal_lt100 digit_char_values replicate_small)
  next
    case 3
    then show ?thesis by (simp add: decimal_lt1000 digit_char_values)
  next
    case 4
    then show ?thesis using n by (simp add: decimal_lt10000)
  qed
  then show ?thesis by (simp add: zero_pad_def Let_def n_def)
qed

lemma text_value2:
  assumes "a < 10" "b < 10"
  shows "text_value [digit_char a, digit_char b] = 10 * int a + int b"
  using py_int_digits2(2) [OF digit_char_digit(1) [OF assms(1)] digit_char_digit(1) [OF assms(2)]]
  by (simp add: digit_char_digit(2) assms)

lemma text_value4:
  assumes "a < 10" "b < 10" "c < 10" "d < 10"
  shows "text_value [digit_char a, digit_char b, digit_char c, digit_char d]
         = 1000 * int a + 100 * int b + 10 * int c + int d"
  using assms [THEN digit_char_digit(1), THEN digit_not_blank]
  by (simp add: text_value_def digit_char_digit(2) assms)

lemma zero_pad2_value:
  assumes "0 \<le> k" "k < 100"
  shows "text_value (zero_pad 2 k) = k"
proof -
  have "nat k div 10 < 10" "nat k mod 10 < 10" using assms by simp_all
  note tv = text_value2 [OF this]
  have "int (nat k div 10) = k div 10" "int (nat k mod 10) = k mod 10"
    using assms by (simp_all add: zdiv_int zmod_int)
  then have "10 * int (nat k div 10) + int (nat k mod 10) = k" by simp
  then show ?thesis
    unfolding zero_pad2 [OF assms] tv .
qed

lemma zero_pad4_Y_text:
  assumes "0 \<le> k" "k < 10000"
  shows "Y_text (zero_pad 4 k)" and "text_value (zero_pad 4 k) = k"
proof -
  define n where "n = nat k"
  have d: "n div 1000 < 10" "n div 100 mod 10 < 10" "n div 10 mod 10 < 10" "n mod 10 < 10"
    using assms by (simp_all add: n_def)
  show "Y_text (zero_pad 4 k)"
    unfolding zero_pad4 [OF assms] n_def [symmetric]
    using d [THEN digit_char_digit(1)] by (simp del: set_simps list.set)
  have e1: "n div 10 * 10 + n mod 10 = n" by (rule div_mult_mod_eq)
  have e2: "n div 100 * 10 + n div 10 mod 10 = n div 10"
    using div_mult_mod_eq [of "n div 10" 10] by (simp add: div10s)
  have e3: "n div 1000 * 10 + n div 100 mod 10 = n div 100"
    using div_mult_mod_eq [of "n div 100" 10] by (simp add: div10s)
  have "1000 * (n div 1000) + 100 * (n div 100 mod 10) + 10 * (n div 10 mod 10) + n mod 10 = n"
    using e1 e2 e3 by linarith
  then have "int (1000 * (n div 1000) + 100 * (n div 100 mod 10) + 10 * (n div 10 mod 10)
      + n mod 10) = int n"
    by (rule arg_cong)
  then have "1000 * int (n div 1000) + 100 * int (n div 100 mod 10)
      + 10 * int (n div 10 mod 10) + int (n mod 10) = k"
    using assms by (simp add: n_def)
  then show "text_value (zero_pad 4 k) = k"
    unfolding zero_pad4 [OF assms] n_def [symmetric] text_value4 [OF d] .
qed

lemma zero_pad2_d_text:
  assumes "1 \<le> k" "k \<le> 31"
  shows "d_text (zero_pad 2 k)"
proof -
  from assms have "k = 1 \<or> k = 2 \<or> k = 3 \<or> k = 4 \<or> k = 5 \<or> k = 6 \<or> k = 7 \<or> k = 8 \<or> k = 9 \<or> k = 10 \<or> k = 11 \<or> k = 12 \<or> k = 13 \<or> k = 14 \<or> k = 15 \<or> k = 16 \<or> k = 17 \<or> k = 18 \<or> k = 19 \<or> k = 20 \<or> k = 21 \<or> k = 22 \<or> k = 23 \<or> k = 24 \<or> k = 25 \<or> k = 26 \<or> k = 27 \<or> k = 28 \<or> k = 29 \<or> k = 30 \<or> k = 31" by presburger
  then show ?thesis
    by (elim disjE) (simp_all add: zero_pad2 digit_char_values digit_char_Suc0)
qed

lemma zero_pad2_m_text:
  assumes "1 \<le> k" "k \<le> 12"
  shows "m_text (zero_pad 2 k)"
proof -
  from assms have "k = 1 \<or> k = 2 \<or> k = 3 \<or> k = 4 \<or> k = 5 \<or> k = 6 \<or> k = 7 \<or> k = 8 \<or> k = 9 \<or> k = 10 \<or> k = 11 \<or> k = 12" by presburger
  then show ?thesis
    by (elim disjE) (simp_all add: zero_pad2 digit_char_values digit_char_Suc0)
qed

lemma days_in_month_le_31:
  assumes "1 \<le> k" "k \<le> 12"
  shows "days_in_month y k \<le> 31"
proof -
  from assms have "k = 1 \<or> k = 2 \<or> k = 3 \<or> k = 4 \<or> k = 5 \<or> k = 6 \<or> k = 7 \<or> k = 8 \<or> k = 9 \<or> k = 10 \<or> k = 11 \<or> k = 12" by presburger
  then show ?thesis
    by (elim disjE) (simp_all add: days_in_month_def DAYS_IN_MONTH_def)
qed

lemma decimal_four_digits:
  assumes "1000 \<le> k" "k \<le> 9999"
  shows "decimal (nat k) = zero_pad 4 k"
proof -
  have "length (decimal (nat k)) = 4"
    using assms by (subst decimal_lt10000) simp_all
  then show ?thesis by (simp add: zero_pad_def)
qed

text \<open>From the year 1000 on the year is printed with four digits.\<close>

lemma strftime_four_digits:
  assumes "valid_date d" "1000 \<le> year d"
  shows "strftime d
         = zero_pad 2 (day d) @ ''.'' @ zero_pad 2 (month d) @ ''.'' @ zero_pad 4 (year d)"
  using assms decimal_four_digits [of "year d"]
  by (simp add: strftime_def valid_date_def MAXYEAR_def)

lemma strptime_strftime:
  assumes "valid_date d" "1000 \<le> year d"
  shows "strptime (strftime d) = Inr d"
proof -
  from assms have v: "1 \<le> year d" "year d \<le> 9999" "1 \<le> month d" "month d \<le> 12"
    "1 \<le> day d" "day d \<le> days_in_month (year d) (month d)"
    by (simp_all add: valid_date_def MINYEAR_def MAXYEAR_def)
  have d31: "day d \<le> 31" using v(6) days_in_month_le_31 [OF v(3,4), of "year d"] by simp
  have texts: "d_text (zero_pad 2 (day d))" "m_text (zero_pad 2 (month d))"
    "Y_text (zero_pad 4 (year d))"
    using zero_pad2_d_text [OF v(5) d31] zero_pad2_m_text [OF v(3,4)]
      zero_pad4_Y_text(1) [of "year d"] v(1,2) by simp_all
  have vals: "text_value (zero_pad 2 (day d)) = day d"
    "text_value (zero_pad 2 (month d)) = month d" "text_value (zero_pad 4 (year d)) = year d"
    using zero_pad2_value [of "day d"] zero_pad2_value [of "month d"]
      zero_pad4_Y_text(2) [of "year d"] v d31 by simp_all
  show ?thesis
    unfolding strptime_Inr_iff strftime_four_digits [OF assms]
    using texts vals assms(1) by (intro exI conjI) (rule refl, simp_all)
qed

section \<open>The loop of the scheduler\<close>

lemma upcoming_loop_Cons:
  "upcoming_loop today (r # rs) acc =
     (case loop_body today r of
        Inl e \<Rightarrow> Inl e
      | Inr None \<Rightarrow> upcoming_loop today rs acc
      | Inr (Some e) \<Rightarrow> upcoming_loop today rs (acc @ [e]))"
  by (simp add: loop_body_def split: option.splits sum.splits)

declare upcoming_loop.simps(2) [simp del]

lemma date_replace_year:
  "date_replace d (Some y) None None = date_new y (month d) (day d)"
  by (simp add: date_replace_def)

text \<open>The outcome of one pass, in the words of the specification.\<close>

lemma loop_body_eq:
  "loop_body today r =
     (case birthday r of
        None \<Rightarrow> Inr None
      | Some b \<Rightarrow>
          (case strptime (value b) of
             Inl e \<Rightarrow> Inl e
           | Inr bd \<Rightarrow>
               (case occurrence today bd of
                  Inl e \<Rightarrow> Inl e
                | Inr occ \<Rightarrow>
                    if 0 \<le> day_delta today occ \<and> day_delta today occ < 7
                    then (case (if weekday occ \<ge> 5 then date_add occ (7 - weekday occ)
                                else Inr occ) of
                            Inl e \<Rightarrow> Inl e
                          | Inr c \<Rightarrow> Inr (Some [(''name'', value (name r)),
                                               (''congratulation_date'', strftime c)]))
                    else Inr None)))"
proof (cases "birthday r")
  case None
  then show ?thesis by (simp add: loop_body_def)
next
  case (Some b)
  show ?thesis
  proof (cases "strptime (value b)")
    case (Inl e)
    then show ?thesis by (simp add: loop_body_def Some)
  next
    case bd: (Inr bd)
    show ?thesis
    proof (cases "date_new (year today) (month bd) (day bd)")
      case (Inl e)
      then show ?thesis
        by (simp add: loop_body_def Some bd occurrence_def date_replace_year)
    next
      case (Inr ty)
      then have "month ty = month bd" "day ty = day bd"
        by (auto simp: date_new_Inr_iff)
      then show ?thesis
        unfolding loop_body_def occurrence_def day_delta_def date_sub_def date_replace_year
        by (simp add: Some bd Inr)
    qed
  qed
qed

lemma occurrence_valid: "occurrence today bd = Inr occ \<Longrightarrow> valid_date occ"
  by (auto simp: occurrence_def date_new_Inr_iff split: sum.splits if_splits)


lemma occurrence_cases:
  assumes "occurrence today bd = Inr occ"
  shows "month occ = month bd \<and> day occ = day bd \<and>
         (year occ = year today \<and> \<not> date_lt occ today
          \<or> year occ = year today + 1
            \<and> date_lt \<lparr>year = year today, month = month bd, day = day bd\<rparr> today)"
  using assms
  by (auto simp: occurrence_def date_new_Inr_iff split: sum.splits if_splits)

lemma in_window_loop_body:
  assumes "loop_body today r = Inr x"
  shows "in_window today r \<longleftrightarrow> x \<noteq> None"
  using assms unfolding loop_body_eq in_window_def
  by (auto split: option.splits sum.splits if_splits)

lemma upcoming_loop_Inr:
  assumes "upcoming_loop today rs acc = Inr out"
  shows "\<exists>es. out = acc @ es
           \<and> list_all2 (\<lambda>r e. loop_body today r = Inr (Some e)) (filter (in_window today) rs) es"
  using assms
proof (induction rs arbitrary: acc)
  case Nil
  then show ?case by simp
next
  case (Cons r rs)
  show ?case
  proof (cases "loop_body today r")
    case (Inl e)
    with Cons.prems show ?thesis by (simp add: upcoming_loop_Cons)
  next
    case (Inr x)
    show ?thesis
    proof (cases x)
      case None
      with Inr Cons.prems have "upcoming_loop today rs acc = Inr out"
        by (simp add: upcoming_loop_Cons)
      from Cons.IH [OF this] in_window_loop_body [OF Inr] None show ?thesis by simp
    next
      case (Some e)
      with Inr Cons.prems have "upcoming_loop today rs (acc @ [e]) = Inr out"
        by (simp add: upcoming_loop_Cons)
      from Cons.IH [OF this] obtain es where es: "out = (acc @ [e]) @ es"
        "list_all2 (\<lambda>r e. loop_body today r = Inr (Some e)) (filter (in_window today) rs) es"
        by blast
      have "in_window today r" using in_window_loop_body [OF Inr] Some by simp
      with es Inr Some show ?thesis
        by (intro exI [of _ "e # es"]) simp
    qed
  qed
qed


lemma weekday_range: "0 \<le> weekday d \<and> weekday d < 7"
  by (simp add: weekday_def)



lemma shifted_weekday:
  fixes t :: int
  assumes "5 \<le> (t + 6) mod 7"
  shows "(t + (7 - (t + 6) mod 7) + 6) mod 7 = 0"
    and "7 - (t + 6) mod 7 = (if (t + 6) mod 7 = 5 then 2 else 1)"
  using assms by presburger+

lemma loop_body_Some:
  assumes "loop_body today r = Inr (Some e)"
  shows "\<exists>b bd occ c. birthday r = Some b \<and> strptime (value b) = Inr bd
           \<and> occurrence today bd = Inr occ
           \<and> 0 \<le> day_delta today occ \<and> day_delta today occ < 7
           \<and> valid_date c
           \<and> toordinal c = toordinal occ
                + (if weekday occ = 5 then 2 else if weekday occ = 6 then 1 else 0)
           \<and> (weekday occ < 5 \<longrightarrow> c = occ)
           \<and> weekday c < 5
           \<and> e = [(''name'', value (name r)), (''congratulation_date'', strftime c)]"
proof -
  from assms obtain b bd occ c where f: "birthday r = Some b" "strptime (value b) = Inr bd"
    "occurrence today bd = Inr occ" "0 \<le> day_delta today occ" "day_delta today occ < 7"
    "(if weekday occ \<ge> 5 then date_add occ (7 - weekday occ) else Inr occ) = Inr c"
    "e = [(''name'', value (name r)), (''congratulation_date'', strftime c)]"
    unfolding loop_body_eq
    by (auto split: option.splits sum.splits if_splits)
  note v = occurrence_valid [OF f(3)]
  have "valid_date c \<and> toordinal c = toordinal occ
                + (if weekday occ = 5 then 2 else if weekday occ = 6 then 1 else 0)
           \<and> (weekday occ < 5 \<longrightarrow> c = occ) \<and> weekday c < 5"
  proof (cases "5 \<le> weekday occ")
    case True
    with f(6) have "date_add occ (7 - weekday occ) = Inr c" by simp
    from date_add_Inr [OF this] have c: "valid_date c"
      "toordinal c = toordinal occ + (7 - weekday occ)" by simp_all
    have w: "5 \<le> (toordinal occ + 6) mod 7" using True by (simp add: weekday_def)
    have "weekday c = 0"
      unfolding weekday_def c(2) using shifted_weekday(1) [OF w] by simp
    moreover have "7 - weekday occ = (if weekday occ = 5 then 2 else 1)"
      unfolding weekday_def by (rule shifted_weekday(2) [OF w])
    moreover have "weekday occ = 5 \<or> weekday occ = 6"
      using True weekday_range [of occ] by arith
    ultimately show ?thesis using c True by auto
  next
    case False
    with f(6) have "c = occ" by simp
    with False v show ?thesis by auto
  qed
  with f show ?thesis by blast
qed

lemma strftime_is_DDMMYYYY:
  assumes "valid_date d" "1000 \<le> year d"
  shows "is_DDMMYYYY (strftime d) d"
proof -
  from assms have v: "1 \<le> year d" "year d \<le> 9999" "1 \<le> month d" "month d \<le> 12"
    "1 \<le> day d" "day d \<le> days_in_month (year d) (month d)"
    by (simp_all add: valid_date_def MINYEAR_def MAXYEAR_def)
  have d31: "day d \<le> 31" using v(6) days_in_month_le_31 [OF v(3,4), of "year d"] by simp
  define a where "a = nat (day d)"
  define b where "b = nat (month d)"
  define c where "c = nat (year d)"
  have za: "zero_pad 2 (day d) = [digit_char (a div 10), digit_char (a mod 10)]"
    unfolding a_def by (rule zero_pad2) (use v d31 in simp_all)
  have zb: "zero_pad 2 (month d) = [digit_char (b div 10), digit_char (b mod 10)]"
    unfolding b_def by (rule zero_pad2) (use v in simp_all)
  have zc: "zero_pad 4 (year d) = [digit_char (c div 1000), digit_char (c div 100 mod 10),
           digit_char (c div 10 mod 10), digit_char (c mod 10)]"
    unfolding c_def by (rule zero_pad4) (use v in simp_all)
  have dig: "digit_char (a div 10) \<in> set ''0123456789''" "digit_char (a mod 10) \<in> set ''0123456789''"
    "digit_char (b div 10) \<in> set ''0123456789''" "digit_char (b mod 10) \<in> set ''0123456789''"
    "digit_char (c div 1000) \<in> set ''0123456789''"
    "digit_char (c div 100 mod 10) \<in> set ''0123456789''"
    "digit_char (c div 10 mod 10) \<in> set ''0123456789''"
    "digit_char (c mod 10) \<in> set ''0123456789''"
    using v d31 by (simp_all add: digit_char_digit(1) a_def b_def c_def del: set_simps list.set)
  have vals: "text_value [digit_char (a div 10), digit_char (a mod 10)] = day d"
    "text_value [digit_char (b div 10), digit_char (b mod 10)] = month d"
    "text_value [digit_char (c div 1000), digit_char (c div 100 mod 10),
           digit_char (c div 10 mod 10), digit_char (c mod 10)] = year d"
    using zero_pad2_value [of "day d"] zero_pad2_value [of "month d"]
      zero_pad4_Y_text(2) [of "year d"] v d31
    unfolding za zb zc by simp_all
  show ?thesis
    unfolding is_DDMMYYYY_def strftime_four_digits [OF assms] za zb zc
    using dig vals by (simp del: set_simps list.set)
qed


lemma list_all2_mono':
  assumes "list_all2 P xs ys" "\<And>x y. P x y \<Longrightarrow> Q x y"
  shows "list_all2 Q xs ys"
  using assms by (induction rule: list_all2_induct) auto

lemma list_all2_rightD:
  assumes "list_all2 P xs ys" "y \<in> set ys"
  shows "\<exists>x\<in>set xs. P x y"
  using assms by (induction rule: list_all2_induct) auto

lemma get_upcoming_Inr:
  assumes "fst (get_upcoming_birthdays today data) = Inr out"
  shows "list_all2 (\<lambda>r e. loop_body today r = Inr (Some e))
           (filter (in_window today) (map snd data)) out"
  using upcoming_loop_Inr [of today "map snd data" "[]" out] assms
  by (simp add: get_upcoming_birthdays_def)

lemma toordinal_year_bounds:
  assumes "valid_date d"
  shows "days_before_year (year d) < toordinal d"
    and "toordinal d \<le> days_before_year (year d + 1)"
proof -
  from assms have v: "1 \<le> month d" "month d \<le> 12"
    "1 \<le> day d" "day d \<le> days_in_month (year d) (month d)"
    by (simp_all add: valid_date_def)
  note doy = day_of_year_bounds [OF v]
  show "days_before_year (year d) < toordinal d"
    using doy(1) by (simp add: toordinal_def ymd2ord_def)
  show "toordinal d \<le> days_before_year (year d + 1)"
    unfolding days_before_year_Suc using doy(2)
    by (simp add: toordinal_def ymd2ord_def split: if_splits)
qed

lemma toordinal_le_year:
  assumes "valid_date a" "valid_date b" "toordinal a \<le> toordinal b"
  shows "year a \<le> year b"
proof (rule ccontr)
  assume "\<not> year a \<le> year b"
  then have "year b + 1 \<le> year a" by simp
  then have "days_before_year (year b + 1) \<le> days_before_year (year a)"
    by (rule days_before_year_mono)
  with toordinal_year_bounds(2) [OF assms(2)] toordinal_year_bounds(1) [OF assms(1)] assms(3)
  show False by simp
qed

lemma occurrence_year: "occurrence today bd = Inr occ \<Longrightarrow> year today \<le> year occ"
  by (auto simp: occurrence_def date_new_Inr_iff split: sum.splits if_splits)





section \<open>Fields, records and the book\<close>

text \<open>
  The two outcomes of the phone constructor and of \<open>add_phone\<close>: a refusal leaves the
  record as it was.
\<close>

lemma Phone_init_eq:
  "Phone_init s = (if isdigit s \<and> length s = 10 then Inr \<lparr>value = s\<rparr> else Inl ValueError)"
  by (simp add: Phone_init_def Field_init_def)

lemma add_phone_eq:
  "add_phone s r =
     (if isdigit s \<and> length s = 10 then (Inr (), r\<lparr>phones := phones r @ [\<lparr>value = s\<rparr>]\<rparr>)
      else (Inl ValueError, r))"
  by (simp add: add_phone_def Phone_init_eq)

text \<open>
  Claim C3 does not hold of the code. The string of ten superscript twos (code point
  0xB2) holds no decimal digit, and the phone constructor accepts it and stores it:
  \<^verbatim>\<open>str.isdigit\<close> is true of it and its length is 10.
\<close>

theorem Phone_init_accepts_superscripts:
  "CHR 0xB2 \<notin> set ''0123456789''
   \<and> Phone_init [CHR 0xB2, CHR 0xB2, CHR 0xB2, CHR 0xB2, CHR 0xB2,
                  CHR 0xB2, CHR 0xB2, CHR 0xB2, CHR 0xB2, CHR 0xB2]
       = Inr \<lparr>value = [CHR 0xB2, CHR 0xB2, CHR 0xB2, CHR 0xB2, CHR 0xB2,
                        CHR 0xB2, CHR 0xB2, CHR 0xB2, CHR 0xB2, CHR 0xB2]\<rparr>"
  by (simp add: Phone_init_def Field_init_def isdigit_def isdigit_char_def)

text \<open>
  Claim C4 does not hold of the code. The text 1.1.2000, with one digit for the day
  and one for the month, is accepted by the birthday constructor and stored as it
  is. It reads as 1 January 2000, it is not in the form DD.MM.YYYY, and it differs
  from the text 01.01.2000 that this date is written as.
\<close>

theorem Birthday_init_lenient:
  "Birthday_init ''1.1.2000'' = Inr \<lparr>value = ''1.1.2000''\<rparr>
   \<and> strptime ''1.1.2000'' = Inr \<lparr>year = 2000, month = 1, day = 1\<rparr>
   \<and> \<not> is_DDMMYYYY ''1.1.2000'' \<lparr>year = 2000, month = 1, day = 1\<rparr>
   \<and> strftime \<lparr>year = 2000, month = 1, day = 1\<rparr> = ''01.01.2000''"
  by code_simp

text \<open>
  Claim C6, as amended. For every string, the empty one included, the record
  constructor succeeds, with that name, no phones and no birthday: the class
  \<^verbatim>\<open>Name\<close> validates nothing.
\<close>

theorem Record_init_total:
  "Record_init n = Inr \<lparr>name = \<lparr>value = n\<rparr>, phones = [], birthday = None\<rparr>"
  by (simp add: Record_init_def Name_init_def Field_init_def)

text \<open>Claim C6 as written fails: the empty name is not refused.\<close>

theorem Record_init_empty_counterexample:
  "Record_init [] \<noteq> Inl ValueError
   \<and> Record_init [] = Inr \<lparr>name = \<lparr>value = []\<rparr>, phones = [], birthday = None\<rparr>"
  by (simp add: Record_init_def Name_init_def Field_init_def)

text \<open>
  Claim C7. After \<open>add_record r\<close>, \<open>find\<close> on the name of \<open>r\<close> returns \<open>r\<close>. A second
  record added under the same name replaces the first: \<open>find\<close> returns the second,
  and the book is the one obtained by adding the second alone. \<open>find\<close> on a name
  that is no key of the book returns \<open>None\<close>; it has no error outcome.
\<close>

theorem add_record_find:
  "find (value (name r)) (add_record r data) = Some r
   \<and> (value (name r2) = value (name r1) \<longrightarrow>
        find (value (name r1)) (add_record r2 (add_record r1 data)) = Some r2
        \<and> add_record r2 (add_record r1 data) = add_record r2 data)
   \<and> (n \<notin> fst ` set data \<longrightarrow> find n data = None)"
  by (auto simp: find_def add_record_def update_conv' map_of_eq_None_iff)

theorem add_record_find_witness:
  "find ''Ann''
     (add_record \<lparr>name = \<lparr>value = ''Ann''\<rparr>, phones = [\<lparr>value = ''0501234567''\<rparr>], birthday = None\<rparr>
       (add_record \<lparr>name = \<lparr>value = ''Ann''\<rparr>, phones = [], birthday = None\<rparr> []))
     = Some \<lparr>name = \<lparr>value = ''Ann''\<rparr>, phones = [\<lparr>value = ''0501234567''\<rparr>], birthday = None\<rparr>
   \<and> find ''Bob'' [] = None"
  using add_record_find
    [of "\<lparr>name = \<lparr>value = ''Ann''\<rparr>, phones = [\<lparr>value = ''0501234567''\<rparr>], birthday = None\<rparr>" "[]"
        "\<lparr>name = \<lparr>value = ''Ann''\<rparr>, phones = [\<lparr>value = ''0501234567''\<rparr>], birthday = None\<rparr>"
        "\<lparr>name = \<lparr>value = ''Ann''\<rparr>, phones = [], birthday = None\<rparr>" "''Bob''"]
  by simp

text \<open>
  Claim C8 does not hold of the code. The string of ten superscript twos is no valid
  phone, it holds no decimal digit; \<open>add_phone\<close> does not fail on it, and the record
  afterwards has a phone holding that string appended to its phones.
\<close>

theorem add_phone_appends_superscripts:
  "CHR 0xB2 \<notin> set ''0123456789''
   \<and> add_phone [CHR 0xB2, CHR 0xB2, CHR 0xB2, CHR 0xB2, CHR 0xB2,
                 CHR 0xB2, CHR 0xB2, CHR 0xB2, CHR 0xB2, CHR 0xB2]
       \<lparr>name = \<lparr>value = ''Ann''\<rparr>, phones = [\<lparr>value = ''0671112233''\<rparr>], birthday = None\<rparr>
     = (Inr (),
        \<lparr>name = \<lparr>value = ''Ann''\<rparr>,
         phones = [\<lparr>value = ''0671112233''\<rparr>,
                   \<lparr>value = [CHR 0xB2, CHR 0xB2, CHR 0xB2, CHR 0xB2, CHR 0xB2,
                              CHR 0xB2, CHR 0xB2, CHR 0xB2, CHR 0xB2, CHR 0xB2]\<rparr>],
         birthday = None\<rparr>)"
  by (simp add: add_phone_def Phone_init_def Field_init_def isdigit_def isdigit_char_def)

text \<open>
  Claim C9. The query leaves the book as it is: the book afterwards, that is the
  mapping from names to records and each record's name, phones and birthday, is the
  book before, whatever the outcome.
\<close>

theorem get_upcoming_birthdays_pure:
  "snd (get_upcoming_birthdays today data) = data"
  by (simp add: get_upcoming_birthdays_def)

text \<open>
  Claim C5 does not hold of the code. The birthday 29.02.2000 is accepted by the
  birthday constructor, and the query on 01.03.2023 over a book with that birthday
  ends in \<open>ValueError\<close>: replacing the year by 2023 asks for 29 February 2023.
\<close>

theorem leap_day_birthday_raises:
  "Birthday_init ''29.02.2000'' = Inr \<lparr>value = ''29.02.2000''\<rparr>
   \<and> fst (get_upcoming_birthdays \<lparr>year = 2023, month = 3, day = 1\<rparr>
        [(''Ann'', \<lparr>name = \<lparr>value = ''Ann''\<rparr>, phones = [],
                    birthday = Some \<lparr>value = ''29.02.2000''\<rparr>\<rparr>)]) = Inl ValueError"
  by code_simp

section \<open>The upcoming birthdays\<close>

lemma example_run:
  "fst (get_upcoming_birthdays example_today example_book) = Inr example_upcoming"
  by code_simp

lemma example_year: "1000 \<le> year example_today"
  by (simp add: example_today_def)





text \<open>What the loop appends for one record.\<close>

lemma loop_body_entry:
  assumes "loop_body today r = Inr (Some e)"
  shows "\<exists>b bd occ c.
        birthday r = Some b \<and> strptime (value b) = Inr bd \<and> occurrence today bd = Inr occ
        \<and> 0 \<le> day_delta today occ \<and> day_delta today occ < 7
        \<and> (if weekday occ = 5 then toordinal c = toordinal occ + 2 \<and> weekday c = 0
            else if weekday occ = 6 then toordinal c = toordinal occ + 1 \<and> weekday c = 0
            else c = occ)
        \<and> (5 \<le> weekday occ \<longrightarrow> toordinal c = toordinal occ + (7 - weekday occ))
        \<and> valid_date c \<and> year today \<le> year c \<and> weekday c < 5
        \<and> e = [(''name'', value (name r)), (''congratulation_date'', strftime c)]"
proof -
  from loop_body_Some [OF assms(1)] obtain b bd occ c where f:
    "birthday r = Some b" "strptime (value b) = Inr bd" "occurrence today bd = Inr occ"
    "0 \<le> day_delta today occ" "day_delta today occ < 7" "valid_date c"
    "toordinal c = toordinal occ
       + (if weekday occ = 5 then 2 else if weekday occ = 6 then 1 else 0)"
    "weekday occ < 5 \<longrightarrow> c = occ" "weekday c < 5"
    "e = [(''name'', value (name r)), (''congratulation_date'', strftime c)]"
    by blast
  note vo = occurrence_valid [OF f(3)]
  have wr: "0 \<le> weekday occ" "weekday occ < 7" "0 \<le> weekday c"
    using weekday_range [of occ] weekday_range [of c] by simp_all
  have w0: "weekday c = 0" if "5 \<le> weekday occ"
  proof -
    have "5 \<le> (toordinal occ + 6) mod 7" using that by (simp add: weekday_def)
    from shifted_weekday [OF this] have "(toordinal c + 6) mod 7 = 0"
      using f(7) that wr unfolding weekday_def by (auto split: if_splits)
    then show ?thesis by (simp add: weekday_def)
  qed
  have shift: "if weekday occ = 5 then toordinal c = toordinal occ + 2 \<and> weekday c = 0
            else if weekday occ = 6 then toordinal c = toordinal occ + 1 \<and> weekday c = 0
            else c = occ"
    using f(7,8) w0 wr by auto
  have amount: "5 \<le> weekday occ \<longrightarrow> toordinal c = toordinal occ + (7 - weekday occ)"
    using f(7) wr by auto
  have "toordinal occ \<le> toordinal c" using f(7) by simp
  from toordinal_le_year [OF vo f(6) this] occurrence_year [OF f(3)]
  have yc: "year today \<le> year c" by simp
  from f shift amount yc show ?thesis by blast
qed

text \<open>
  Claim C2. When the query returns, its entries correspond one to one, in order, to
  the records in the window, and the window is decided on the occurrence before any
  shift. The entry of a record carries the record's name and the text of a date
  \<open>c\<close>: when the occurrence falls on a Saturday (weekday 5) \<open>c\<close> is 2 days later, on
  a Sunday (weekday 6) 1 day later, both 7 minus the weekday and both a Monday
  (weekday 0); otherwise \<open>c\<close> is the occurrence itself. From the year 1000 on, which
  holds of every date the clock gives, the text has the form DD.MM.YYYY.
\<close>

theorem congratulation_date_shift:
  assumes "fst (get_upcoming_birthdays today data) = Inr out"
  shows "list_all2
     (\<lambda>r e. \<exists>b bd occ c.
        birthday r = Some b \<and> strptime (value b) = Inr bd \<and> occurrence today bd = Inr occ
        \<and> 0 \<le> day_delta today occ \<and> day_delta today occ < 7
        \<and> (if weekday occ = 5 then toordinal c = toordinal occ + 2 \<and> weekday c = 0
            else if weekday occ = 6 then toordinal c = toordinal occ + 1 \<and> weekday c = 0
            else c = occ)
        \<and> (5 \<le> weekday occ \<longrightarrow> toordinal c = toordinal occ + (7 - weekday occ))
        \<and> valid_date c
        \<and> e = [(''name'', value (name r)), (''congratulation_date'', strftime c)]
        \<and> (1000 \<le> year today \<longrightarrow> is_DDMMYYYY (strftime c) c))
     (filter (in_window today) (map snd data)) out"
proof (rule list_all2_mono' [OF get_upcoming_Inr [OF assms(1)]])
  fix r e assume "loop_body today r = Inr (Some e)"
  from loop_body_entry [OF this] obtain b bd occ c where f:
    "birthday r = Some b" "strptime (value b) = Inr bd" "occurrence today bd = Inr occ"
    "0 \<le> day_delta today occ" "day_delta today occ < 7"
    "if weekday occ = 5 then toordinal c = toordinal occ + 2 \<and> weekday c = 0
     else if weekday occ = 6 then toordinal c = toordinal occ + 1 \<and> weekday c = 0
     else c = occ"
    "5 \<le> weekday occ \<longrightarrow> toordinal c = toordinal occ + (7 - weekday occ)"
    "valid_date c" "year today \<le> year c"
    "e = [(''name'', value (name r)), (''congratulation_date'', strftime c)]"
    by blast
  have "1000 \<le> year today \<longrightarrow> is_DDMMYYYY (strftime c) c"
    using strftime_is_DDMMYYYY [OF f(8)] f(9) by simp
  with f
  show "\<exists>b bd occ c.
        birthday r = Some b \<and> strptime (value b) = Inr bd \<and> occurrence today bd = Inr occ
        \<and> 0 \<le> day_delta today occ \<and> day_delta today occ < 7
        \<and> (if weekday occ = 5 then toordinal c = toordinal occ + 2 \<and> weekday c = 0
            else if weekday occ = 6 then toordinal c = toordinal occ + 1 \<and> weekday c = 0
            else c = occ)
        \<and> (5 \<le> weekday occ \<longrightarrow> toordinal c = toordinal occ + (7 - weekday occ))
        \<and> valid_date c
        \<and> e = [(''name'', value (name r)), (''congratulation_date'', strftime c)]
        \<and> (1000 \<le> year today \<longrightarrow> is_DDMMYYYY (strftime c) c)"
    by blast
qed

theorem congratulation_date_shift_witness:
  "list_all2
     (\<lambda>r e. \<exists>b bd occ c.
        birthday r = Some b \<and> strptime (value b) = Inr bd
        \<and> occurrence example_today bd = Inr occ
        \<and> 0 \<le> day_delta example_today occ \<and> day_delta example_today occ < 7
        \<and> (if weekday occ = 5 then toordinal c = toordinal occ + 2 \<and> weekday c = 0
            else if weekday occ = 6 then toordinal c = toordinal occ + 1 \<and> weekday c = 0
            else c = occ)
        \<and> (5 \<le> weekday occ \<longrightarrow> toordinal c = toordinal occ + (7 - weekday occ))
        \<and> valid_date c
        \<and> e = [(''name'', value (name r)), (''congratulation_date'', strftime c)]
        \<and> is_DDMMYYYY (strftime c) c)
     (filter (in_window example_today) (map snd example_book)) example_upcoming"
proof -
  have h: "fst (get_upcoming_birthdays example_today example_book) = Inr example_upcoming"
    by code_simp
  have y: "1000 \<le> year example_today"
    by (simp add: example_today_def)
  from congratulation_date_shift [OF h] y show ?thesis by simp
qed

text \<open>
  Claim C10. When the query returns on a day from the year 1000 on, which holds of
  every date the clock gives, the congratulation date of every entry parses back to
  a date, and that date is a Monday, Tuesday, Wednesday, Thursday or Friday
  (weekday 0 to 4).
\<close>

theorem congratulation_on_working_day:
  assumes "fst (get_upcoming_birthdays today data) = Inr out" "1000 \<le> year today"
    "e \<in> set out"
  shows "\<exists>s c. map_of e ''congratulation_date'' = Some s \<and> strptime s = Inr c
           \<and> 0 \<le> weekday c \<and> weekday c \<le> 4"
proof -
  from list_all2_rightD [OF get_upcoming_Inr [OF assms(1)] assms(3)]
  obtain r where "loop_body today r = Inr (Some e)" by blast
  from loop_body_entry [OF this] obtain c where c: "valid_date c" "year today \<le> year c"
    "weekday c < 5" "e = [(''name'', value (name r)), (''congratulation_date'', strftime c)]"
    by blast
  from c(2) assms(2) have yc: "1000 \<le> year c" by simp
  have "map_of e ''congratulation_date'' = Some (strftime c)" by (simp add: c(4))
  moreover note strptime_strftime [OF c(1) yc]
  moreover have "0 \<le> weekday c" "weekday c \<le> 4"
    using weekday_range [of c] c(3) by simp_all
  ultimately show ?thesis by blast
qed

theorem congratulation_on_working_day_witness:
  "\<exists>s c. map_of [(''name'', ''Bob''), (''congratulation_date'', ''17.06.2024'')]
            ''congratulation_date'' = Some s
         \<and> strptime s = Inr c \<and> 0 \<le> weekday c \<and> weekday c \<le> 4"
proof -
  have h: "fst (get_upcoming_birthdays example_today example_book) = Inr example_upcoming"
    by code_simp
  have y: "1000 \<le> year example_today"
    by (simp add: example_today_def)
  have m: "[(''name'', ''Bob''), (''congratulation_date'', ''17.06.2024'')] \<in> set example_upcoming"
    by (simp add: example_upcoming_def)
  from congratulation_on_working_day [OF h y m] show ?thesis .
qed

end
